theory Spec2Isabelle
  imports Main "HOL-Library.Char_ord" "HOL-Library.List_Lexorder"
begin

section \<open>Strings and the character classes of the regular expressions\<close>

text \<open>
  A JavaScript string is modelled as a \<^typ>\<open>string\<close>. The regular expressions of the
  extension have no flag but \<open>g\<close> and mention only ASCII characters, so every other
  character (of whatever encoding) falls outside each class they name and inside
  each negated class.
\<close>

definition is_alnum :: "char \<Rightarrow> bool" where
  \<comment> \<open>the class \<open>[a-zA-Z0-9]\<close>\<close>
  "is_alnum c =
     (let n = (of_char c :: int)
      in (97 \<le> n \<and> n \<le> 122) \<or> (65 \<le> n \<and> n \<le> 90) \<or> (48 \<le> n \<and> n \<le> 57))"

definition hyphen :: char where "hyphen = CHR 0x2D"
definition underscore :: char where "underscore = CHR 0x5F"
definition space :: char where "space = CHR 0x20"
definition dquote :: char where "dquote = CHR 0x22"
definition squote :: char where "squote = CHR 0x27"
definition newline :: char where "newline = CHR 0x0A"
definition tab :: char where "tab = CHR 0x09"

definition is_quote :: "char \<Rightarrow> bool" where
  \<comment> \<open>the class \<open>["']\<close>\<close>
  "is_quote c = (c = dquote \<or> c = squote)"

section \<open>BEM Tokenizer: \<open>splitClassNameByBEMRule\<close>\<close>

text \<open>
  \<open>ident_rest\<close> is the greedy match of the remainder of
  \<open>[a-zA-Z0-9]+(?:-[a-zA-Z0-9]+)*\<close> once a first alphanumeric character has been
  taken: alphanumerics are consumed, a hyphen is consumed only when an alphanumeric
  follows it, anything else ends the match.
\<close>

fun ident_rest :: "string \<Rightarrow> string" where
  "ident_rest [] = []"
| "ident_rest (c # cs) =
     (if is_alnum c then c # ident_rest cs
      else if c = hyphen then
        (case cs of
           [] \<Rightarrow> []
         | d # ds \<Rightarrow> if is_alnum d then c # ident_rest cs else [])
      else [])"

text \<open>The longest prefix matching \<open>[a-zA-Z0-9]+(?:-[a-zA-Z0-9]+)*\<close>, if there is one.\<close>

fun ident :: "string \<Rightarrow> string option" where
  "ident [] = None"
| "ident (c # cs) = (if is_alnum c then Some (c # ident_rest cs) else None)"

text \<open>\<open>BLOCK_REGEX = /(^[a-zA-Z0-9]+(?:-[a-zA-Z0-9]+)*)/\<close>: anchored at the start.\<close>

definition match_block :: "string \<Rightarrow> string option" where
  "match_block s = ident s"

text \<open>
  \<open>ELEMENT_REGEX = /__([a-zA-Z0-9]+(?:-[a-zA-Z0-9]+)*)/\<close>: the leftmost position where
  \<open>__\<close> is followed by an identifier; the whole match (\<open>match[0]\<close>) keeps the marker.
\<close>

fun match_element :: "string \<Rightarrow> string option" where
  "match_element [] = None"
| "match_element (c # cs) =
     (case (if c = underscore then
              (case cs of
                 [] \<Rightarrow> None
               | d # ds \<Rightarrow> if d = underscore then ident ds else None)
            else None) of
        Some i \<Rightarrow> Some (c # underscore # i)
      | None \<Rightarrow> match_element cs)"

text \<open>
  \<open>MODIFIER_REGEX = /--([a-zA-Z0-9]+(?:-[a-zA-Z0-9]+)*)$/\<close>: the leftmost position where
  \<open>--\<close> is followed by an identifier that reaches the end of the string. The engine
  backtracks over every way of matching the identifier, so the position matches exactly
  when all of the remainder is an identifier, which is when the greedy match takes all
  of it.
\<close>

fun match_modifier :: "string \<Rightarrow> string option" where
  "match_modifier [] = None"
| "match_modifier (c # cs) =
     (case (if c = hyphen then
              (case cs of
                 [] \<Rightarrow> None
               | d # ds \<Rightarrow> if d = hyphen \<and> ident ds = Some ds then Some ds else None)
            else None) of
        Some i \<Rightarrow> Some (c # hyphen # i)
      | None \<Rightarrow> match_modifier cs)"

text \<open>
  The triple \<open>[block, element, modifier]\<close>, \<open>null\<close> as \<open>None\<close>. A match's \<open>[0]\<close> is
  never the empty string here, so \<open>|| null\<close> changes nothing.
\<close>

definition splitClassNameByBEMRule :: "string \<Rightarrow> string option \<times> string option \<times> string option" where
  "splitClassNameByBEMRule classString =
     (let block = match_block classString;
          element = match_element classString;
          modifier = match_modifier classString
      in case block of
           None \<Rightarrow> (None, None, None)
         | Some b \<Rightarrow> (Some b, element, modifier))"

section \<open>Class Extractor: \<open>getAllClassName\<close>\<close>

fun strip_prefix :: "string \<Rightarrow> string \<Rightarrow> string option" where
  "strip_prefix [] s = Some s"
| "strip_prefix (p # ps) [] = None"
| "strip_prefix (p # ps) (c # cs) = (if p = c then strip_prefix ps cs else None)"

text \<open>
  One attempt of \<open>CLASS_NAME_REGEX = /class(?:Name)?=["']([^"']+)["']/g\<close> at the start of
  \<open>s\<close>: the captured group and the text after the match. Taking \<open>Name\<close> back never helps
  (an \<open>=\<close> would have to stand where the \<open>N\<close> is), and neither does shortening the greedy
  run of non-quote characters (a quote would have to stand inside the run), so the
  attempt is decided without backtracking. The closing quote need not be the opening one.
\<close>

definition match_class_at :: "string \<Rightarrow> (string \<times> string) option" where
  "match_class_at s =
     (case strip_prefix ''class'' s of
        None \<Rightarrow> None
      | Some r1 \<Rightarrow>
          (let r2 = (case strip_prefix ''Name'' r1 of Some r \<Rightarrow> r | None \<Rightarrow> r1)
           in case r2 of
                e # q # r3 \<Rightarrow>
                  if e = CHR ''='' \<and> is_quote q then
                    (let v = takeWhile (\<lambda>c. \<not> is_quote c) r3;
                         r4 = dropWhile (\<lambda>c. \<not> is_quote c) r3
                     in if v \<noteq> [] \<and> r4 \<noteq> [] then Some (v, tl r4) else None)
                  else None
              | _ \<Rightarrow> None))"

lemma strip_prefix_length: "strip_prefix p s = Some r \<Longrightarrow> length r + length p = length s"
  by (induction p s rule: strip_prefix.induct) (auto split: if_splits)

lemma match_class_at_shorter:
  assumes "match_class_at s = Some (v, rest)"
  shows "length rest < length s"
proof -
  from assms obtain r1 where r1: "strip_prefix ''class'' s = Some r1"
    by (auto simp: match_class_at_def split: option.splits)
  define r2 where "r2 = (case strip_prefix ''Name'' r1 of Some r \<Rightarrow> r | None \<Rightarrow> r1)"
  have l1: "length r1 < length s"
    using strip_prefix_length [OF r1] by simp
  have l2: "length r2 \<le> length r1"
    unfolding r2_def by (auto split: option.splits dest: strip_prefix_length)
  from assms r1 obtain e q r3 where r3: "r2 = e # q # r3"
    and rest: "rest = tl (dropWhile (\<lambda>c. \<not> is_quote c) r3)"
    by (auto simp: match_class_at_def r2_def Let_def split: option.splits list.splits if_splits)
  have "length rest \<le> length r3"
    unfolding rest using length_dropWhile_le [of "\<lambda>c. \<not> is_quote c" r3] by simp
  with r3 l1 l2 show ?thesis by simp
qed

text \<open>
  \<open>htmlString.matchAll(CLASS_NAME_REGEX)\<close>, each match by its captured group: the scan
  tries every position from the left and goes on after the end of a match.
\<close>

function matchAll_class :: "string \<Rightarrow> string list" where
  "matchAll_class [] = []"
| "matchAll_class (c # cs) =
     (case match_class_at (c # cs) of
        Some (v, rest) \<Rightarrow> v # matchAll_class rest
      | None \<Rightarrow> matchAll_class cs)"
  by pat_completeness auto
termination
proof (relation "measure length")
  show "wf (measure length)" by simp
next
  fix c cs x2 v rest
  assume "match_class_at (c # cs) = Some x2" "(v, rest) = x2"
  then have "length rest < length (c # cs)"
    using match_class_at_shorter [of "c # cs" v rest] by simp
  then show "(rest, c # cs) \<in> measure length" by simp
next
  fix c :: char and cs :: string
  show "(cs, c # cs) \<in> measure length" by simp
qed

text \<open>\<open>str.split(" ")\<close>: the pieces between the single space characters, empty ones included.\<close>

fun split_space :: "string \<Rightarrow> string list" where
  "split_space [] = [[]]"
| "split_space (c # cs) =
     (if c = space then [] # split_space cs
      else (case split_space cs of
              [] \<Rightarrow> [[c]]
            | w # ws \<Rightarrow> (c # w) # ws))"

definition getAllClassName :: "string \<Rightarrow> string list" where
  "getAllClassName htmlString = concat (map split_space (matchAll_class htmlString))"

section \<open>The selector tree\<close>

text \<open>
  \<open>interface SASSObjectItem { parent: string; children: SASSObjectItem[] }\<close>. Every node
  is created by an object literal of its own and no node is stored in two places, so the
  tree of values is the heap the code builds.
\<close>

datatype SASSObjectItem = SASSObjectItem (parent: string) (children: "SASSObjectItem list")

text \<open>
  \<open>interface ISASSObject { [block: string]: SASSObjectItem }\<close>: the own properties of the
  object, in the order they were created.
\<close>

type_synonym ISASSObject = "(string \<times> SASSObjectItem) list"

datatype error = TypeError

text \<open>
  What \<open>SASSObject[block]\<close> reads. \<open>SASSObject\<close> starts as the literal \<open>{}\<close>, whose
  prototype is \<open>Object.prototype\<close>: a key that is not an own property but names a
  property of the prototype reads that property, a value that is truthy and has no
  \<open>children\<close>.
\<close>

datatype property = Undefined | Inherited | Own SASSObjectItem

definition object_prototype_keys :: "string list" where
  "object_prototype_keys =
     [''constructor'', ''hasOwnProperty'', ''isPrototypeOf'', ''propertyIsEnumerable'',
      ''toLocaleString'', ''toString'', ''valueOf'', ''__defineGetter__'',
      ''__defineSetter__'', ''__lookupGetter__'', ''__lookupSetter__'', ''__proto__'']"

definition get_property :: "ISASSObject \<Rightarrow> string \<Rightarrow> property" where
  "get_property obj k =
     (case map_of obj k of
        Some item \<Rightarrow> Own item
      | None \<Rightarrow> if k \<in> set object_prototype_keys then Inherited else Undefined)"

text \<open>Writing back the node that \<open>SASSObject[k]\<close> refers to, after it was mutated.\<close>

fun set_property :: "string \<Rightarrow> SASSObjectItem \<Rightarrow> ISASSObject \<Rightarrow> ISASSObject" where
  "set_property k v [] = []"
| "set_property k v ((k', v') # rest) =
     (if k' = k then (k', v) # rest else (k', v') # set_property k v rest)"

text \<open>\<open>item.children.push(child)\<close>\<close>

definition push :: "SASSObjectItem \<Rightarrow> SASSObjectItem \<Rightarrow> SASSObjectItem" where
  "push item child = SASSObjectItem (parent item) (children item @ [child])"

text \<open>
  \<open>item.children.find((child) => child.parent === name)?.children.push(child)\<close>: the push
  goes to the first child of that name; with no such child nothing is pushed.
\<close>

fun push_under :: "string \<Rightarrow> SASSObjectItem \<Rightarrow> SASSObjectItem list \<Rightarrow> SASSObjectItem list" where
  "push_under name child [] = []"
| "push_under name child (c # cs) =
     (if parent c = name then push c child # cs else c # push_under name child cs)"

section \<open>Selector Tree Builder: \<open>extractSCSS\<close>\<close>

text \<open>\<open>str.startsWith("--")\<close>\<close>

definition startsWith :: "string \<Rightarrow> string \<Rightarrow> bool" where
  "startsWith s p = (strip_prefix p s \<noteq> None)"

text \<open>
  The comparator handed to \<open>Array.prototype.sort\<close>. \<open>String.prototype.localeCompare\<close>
  belongs to the host and depends on its locale, so it is the parameter
  \<open>localeCompare\<close>: negative, zero or positive as the first string sorts before, with or
  after the second.
\<close>

definition compareChildren ::
  "(string \<Rightarrow> string \<Rightarrow> int) \<Rightarrow> SASSObjectItem \<Rightarrow> SASSObjectItem \<Rightarrow> int" where
  "compareChildren localeCompare a b =
     (let aIsModifier = startsWith (parent a) ''--'';
          bIsModifier = startsWith (parent b) ''--''
      in if aIsModifier \<and> \<not> bIsModifier then - 1
         else if \<not> aIsModifier \<and> bIsModifier then 1
         else localeCompare (parent a) (parent b))"

text \<open>
  \<open>[...children].sort(cmp)\<close>: the sort is stable, so with a consistent comparator its
  result is the one that inserting each item before the first item it does not sort
  after produces.
\<close>

fun insert_sorted :: "('a \<Rightarrow> 'a \<Rightarrow> int) \<Rightarrow> 'a \<Rightarrow> 'a list \<Rightarrow> 'a list" where
  "insert_sorted cmp x [] = [x]"
| "insert_sorted cmp x (y # ys) =
     (if cmp x y \<le> 0 then x # y # ys else y # insert_sorted cmp x ys)"

definition sortSASSObjectChildren ::
  "(string \<Rightarrow> string \<Rightarrow> int) \<Rightarrow> SASSObjectItem list \<Rightarrow> SASSObjectItem list" where
  "sortSASSObjectChildren localeCompare cs =
     foldr (insert_sorted (compareChildren localeCompare)) cs []"

text \<open>
  Lines 151 to 196 of the loop body, for an \<open>alreadyBlock\<close> that is a node: what the
  node is after the round. The element is pushed unless a child of that name is found;
  a modifier goes under the element found by name when there is an element, and under
  the block itself when there is none, unless \<open>some\<close> child there has its name already
  (the \<open>continue\<close> statements leave the node as it is at that point).
\<close>

definition addChildren ::
  "SASSObjectItem \<Rightarrow> string option \<Rightarrow> string option \<Rightarrow> SASSObjectItem" where
  "addChildren alreadyBlock element modifier =
     (case element of
        Some e \<Rightarrow>
          (let blk = (if find (\<lambda>child. parent child = e) (children alreadyBlock) = None
                      then push alreadyBlock (SASSObjectItem e [])
                      else alreadyBlock)
           in case modifier of
                None \<Rightarrow> blk
              | Some m \<Rightarrow>
                  (let alreadyElement = find (\<lambda>child. parent child = e) (children blk);
                       existedElementModifier =
                         (case alreadyElement of
                            None \<Rightarrow> False
                          | Some el \<Rightarrow> list_ex (\<lambda>c. parent c = m) (children el))
                   in if existedElementModifier then blk
                      else SASSObjectItem (parent blk)
                             (push_under e (SASSObjectItem m []) (children blk))))
      | None \<Rightarrow>
          (case modifier of
             None \<Rightarrow> alreadyBlock
           | Some m \<Rightarrow>
               if list_ex (\<lambda>c. parent c = m) (children alreadyBlock) then alreadyBlock
               else push alreadyBlock (SASSObjectItem m [])))"

text \<open>
  One round of the \<open>for (const className of classNames)\<close> loop. \<open>alreadyBlock\<close> is read
  once, before the block is created, and is not read again. When the block is new it
  stays \<open>undefined\<close>: \<open>alreadyBlock.children\<close> throws a \<open>TypeError\<close> at line 153 when
  there is an element, and at line 192 when there is a modifier only (the optional
  chain of line 184 gives \<open>undefined\<close>). When the key is inherited from the prototype,
  \<open>alreadyBlock.children\<close> is \<open>undefined\<close> and \<open>find\<close> or \<open>push\<close> on it throws at the same
  lines. When it is an own property, it is the node stored under \<open>block\<close>, which the
  round mutates in place.
\<close>

definition extractSCSS_step :: "ISASSObject \<Rightarrow> string \<Rightarrow> error + ISASSObject" where
  "extractSCSS_step SASSObject className =
     (case splitClassNameByBEMRule className of
        (None, element, modifier) \<Rightarrow> Inr SASSObject
      | (Some block, element, modifier) \<Rightarrow>
          (let alreadyBlock = get_property SASSObject block;
               created = (if alreadyBlock = Undefined
                          then SASSObject @ [(block, SASSObjectItem block [])]
                          else SASSObject)
           in if element = None \<and> modifier = None then Inr created
              else
                (case alreadyBlock of
                   Undefined \<Rightarrow> Inl TypeError
                 | Inherited \<Rightarrow> Inl TypeError
                 | Own blk \<Rightarrow> Inr (set_property block (addChildren blk element modifier) created))))"

fun extractSCSS_loop :: "ISASSObject \<Rightarrow> string list \<Rightarrow> error + ISASSObject" where
  "extractSCSS_loop SASSObject [] = Inr SASSObject"
| "extractSCSS_loop SASSObject (className # classNames) =
     (case extractSCSS_step SASSObject className of
        Inl e \<Rightarrow> Inl e
      | Inr SASSObject' \<Rightarrow> extractSCSS_loop SASSObject' classNames)"

text \<open>The second loop: \<open>SASSObject[blockKey].children = sortSASSObjectChildren(...)\<close>.\<close>

definition sortBlocks :: "(string \<Rightarrow> string \<Rightarrow> int) \<Rightarrow> ISASSObject \<Rightarrow> ISASSObject" where
  "sortBlocks localeCompare obj =
     map (\<lambda>(blockKey, blk).
            (blockKey, SASSObjectItem (parent blk) (sortSASSObjectChildren localeCompare (children blk))))
       obj"

definition extractSCSS :: "(string \<Rightarrow> string \<Rightarrow> int) \<Rightarrow> string list \<Rightarrow> error + ISASSObject" where
  "extractSCSS localeCompare classNames =
     (case extractSCSS_loop [] classNames of
        Inl e \<Rightarrow> Inl e
      | Inr SASSObject \<Rightarrow> Inr (sortBlocks localeCompare SASSObject))"

section \<open>Selector Tree Serializer: \<open>parseToSCSS\<close> and \<open>generateSCSS\<close>\<close>

fun parseToSCSS :: "SASSObjectItem \<Rightarrow> string \<Rightarrow> nat \<Rightarrow> string" where
  "parseToSCSS (SASSObjectItem name cs) parentSelector indentLevel =
     (let currentSelector = (if parentSelector = [] then ''.'' @ name else ''&'' @ name);
          indent = replicate indentLevel tab
      in indent @ currentSelector @ '' {'' @ [newline]
         @ indent @ ''  '' @ [newline]
         @ concat (map (\<lambda>child. parseToSCSS child currentSelector (indentLevel + 1)) cs)
         @ indent @ ''}'' @ [newline]
         @ (if indentLevel = 0 then [newline] else []))"

text \<open>
  \<open>Object.values(sassObject)\<close> lists the own properties whose key is an array index (a
  canonical decimal numeral below \<open>2^32 - 1\<close>) first, by ascending value, and the others
  after them in the order of their creation.
\<close>

definition is_digit :: "char \<Rightarrow> bool" where
  "is_digit c = (let n = (of_char c :: int) in 48 \<le> n \<and> n \<le> 57)"

definition decimal_value :: "string \<Rightarrow> int" where
  "decimal_value s = foldl (\<lambda>acc c. 10 * acc + (of_char c - 48)) 0 s"

definition is_array_index :: "string \<Rightarrow> bool" where
  "is_array_index s =
     (s \<noteq> [] \<and> list_all is_digit s \<and> (s = ''0'' \<or> hd s \<noteq> CHR ''0'')
      \<and> decimal_value s < 4294967295)"

definition Object_values :: "ISASSObject \<Rightarrow> SASSObjectItem list" where
  "Object_values obj =
     map snd (sort_key (\<lambda>(k, v). decimal_value k) (filter (\<lambda>(k, v). is_array_index k) obj)
              @ filter (\<lambda>(k, v). \<not> is_array_index k) obj)"

definition generateSCSS :: "ISASSObject \<Rightarrow> string" where
  "generateSCSS sassObject =
     concat (map (\<lambda>block. parseToSCSS block [] 0) (Object_values sassObject))"

section \<open>The first version of the builder (\<open>src/extension.ts\<close>)\<close>

text \<open>
  The \<open>extractSCSS\<close> of \<open>src/extension.ts\<close> reads \<open>SASSObject[block]\<close> again inside each
  branch, after the block was created; it neither looks for an existing modifier nor
  sorts.
\<close>

definition addChildren_ext ::
  "SASSObjectItem \<Rightarrow> string option \<Rightarrow> string option \<Rightarrow> SASSObjectItem" where
  "addChildren_ext alreadyBlock element modify =
     (let blk = (case element of
                   Some e \<Rightarrow>
                     if find (\<lambda>child. parent child = e) (children alreadyBlock) = None
                     then push alreadyBlock (SASSObjectItem e [])
                     else alreadyBlock
                 | None \<Rightarrow> alreadyBlock)
      in case modify of
           None \<Rightarrow> blk
         | Some m \<Rightarrow>
             (case element of
                Some e \<Rightarrow> SASSObjectItem (parent blk) (push_under e (SASSObjectItem m []) (children blk))
              | None \<Rightarrow> push blk (SASSObjectItem m [])))"

definition extractSCSS_step_ext :: "ISASSObject \<Rightarrow> string \<Rightarrow> error + ISASSObject" where
  "extractSCSS_step_ext SASSObject className =
     (case splitClassNameByBEMRule className of
        (None, element, modify) \<Rightarrow> Inr SASSObject
      | (Some block, element, modify) \<Rightarrow>
          (let created = (if get_property SASSObject block = Undefined
                          then SASSObject @ [(block, SASSObjectItem block [])]
                          else SASSObject)
           in if element = None \<and> modify = None then Inr created
              else
                (case get_property created block of
                   Undefined \<Rightarrow> Inl TypeError
                 | Inherited \<Rightarrow> Inl TypeError
                 | Own blk \<Rightarrow> Inr (set_property block (addChildren_ext blk element modify) created))))"

fun extractSCSS_ext_loop :: "ISASSObject \<Rightarrow> string list \<Rightarrow> error + ISASSObject" where
  "extractSCSS_ext_loop SASSObject [] = Inr SASSObject"
| "extractSCSS_ext_loop SASSObject (className # classNames) =
     (case extractSCSS_step_ext SASSObject className of
        Inl e \<Rightarrow> Inl e
      | Inr SASSObject' \<Rightarrow> extractSCSS_ext_loop SASSObject' classNames)"

definition extractSCSS_ext :: "string list \<Rightarrow> error + ISASSObject" where
  "extractSCSS_ext classNames = extractSCSS_ext_loop [] classNames"

section \<open>The words of an attribute value\<close>

text \<open>
  The specification speaks of the whitespace-separated words of an attribute value.
  \<open>words_of\<close> follows those words (the maximal runs of characters that are not
  whitespace); it is not part of the code, which splits at single spaces.
  \<open>single_spaced\<close> holds of a value made of such words with exactly one space between
  two of them and no other whitespace.
\<close>

definition is_whitespace :: "char \<Rightarrow> bool" where
  "is_whitespace c =
     (c = space \<or> c = tab \<or> c = newline \<or> c = CHR 0x0B \<or> c = CHR 0x0C \<or> c = CHR 0x0D)"

fun words_of :: "string \<Rightarrow> string list" where
  "words_of [] = []"
| "words_of (c # cs) =
     (if is_whitespace c then words_of cs
      else (case cs of
              [] \<Rightarrow> [[c]]
            | d # ds \<Rightarrow>
                if is_whitespace d then [c] # words_of cs
                else (case words_of cs of
                        [] \<Rightarrow> [[c]]
                      | w # ws \<Rightarrow> (c # w) # ws)))"

fun single_spaced :: "string \<Rightarrow> bool" where
  "single_spaced [] = False"
| "single_spaced [c] = (\<not> is_whitespace c)"
| "single_spaced (c # d # cs) =
     (\<not> is_whitespace c \<and> (if d = space then single_spaced cs else single_spaced (d # cs)))"

section \<open>Braces of the generated text\<close>

text \<open>
  \<open>brace_scan\<close> reads a text from the left with the number of blocks that are open: an
  opening brace opens one, a closing brace closes one and fails when none is open. A
  text is balanced when the scan from no open block ends with no open block.
\<close>

definition lbrace :: char where "lbrace = CHR 0x7B"
definition rbrace :: char where "rbrace = CHR 0x7D"

fun brace_scan :: "string \<Rightarrow> nat \<Rightarrow> nat option" where
  "brace_scan [] depth = Some depth"
| "brace_scan (c # cs) depth =
     (if c = lbrace then brace_scan cs (Suc depth)
      else if c = rbrace then
        (case depth of
           0 \<Rightarrow> None
         | Suc below \<Rightarrow> brace_scan cs below)
      else brace_scan cs depth)"

definition balanced :: "string \<Rightarrow> bool" where
  "balanced s = (brace_scan s 0 = Some 0)"

definition brace_free :: "string \<Rightarrow> bool" where
  "brace_free s = (lbrace \<notin> set s \<and> rbrace \<notin> set s)"

fun brace_free_item :: "SASSObjectItem \<Rightarrow> bool" where
  "brace_free_item (SASSObjectItem name cs) = (brace_free name \<and> list_all brace_free_item cs)"

definition brace_free_forest :: "ISASSObject \<Rightarrow> bool" where
  "brace_free_forest obj = list_all (\<lambda>(k, item). brace_free_item item) obj"

text \<open>The characters a captured name is made of.\<close>

definition name_char :: "char \<Rightarrow> bool" where
  "name_char c = (is_alnum c \<or> c = hyphen \<or> c = underscore)"

section \<open>Shape of a forest\<close>

text \<open>
  No node has two children of one name; the height of a tree counts the nodes on its
  longest path from the root.
\<close>

fun no_duplicate_names :: "SASSObjectItem \<Rightarrow> bool" where
  "no_duplicate_names (SASSObjectItem name cs) =
     (distinct (map parent cs) \<and> list_all no_duplicate_names cs)"

fun height :: "SASSObjectItem \<Rightarrow> nat" where
  "height (SASSObjectItem name cs) = Suc (foldr (\<lambda>c h. max (height c) h) cs 0)"

text \<open>
  The shape the loop keeps: under a block, children of distinct names; under each of
  them, modifiers of distinct names without children; and no children under a child
  whose own name is a modifier's.
\<close>

definition is_modifier_leaf :: "SASSObjectItem \<Rightarrow> bool" where
  "is_modifier_leaf g = (children g = [] \<and> startsWith (parent g) ''--'')"

definition wf_child :: "SASSObjectItem \<Rightarrow> bool" where
  "wf_child c =
     (distinct (map parent (children c)) \<and> list_all is_modifier_leaf (children c)
      \<and> (startsWith (parent c) ''--'' \<longrightarrow> children c = []))"

definition wf_block :: "SASSObjectItem \<Rightarrow> bool" where
  "wf_block blk = (distinct (map parent (children blk)) \<and> list_all wf_child (children blk))"

text \<open>
  A class name is covered by a forest when its round of the loop finds everything it
  would add: the block, the element under the block, the modifier under the element or
  under the block.
\<close>

definition covers :: "SASSObjectItem \<Rightarrow> string option \<Rightarrow> string option \<Rightarrow> bool" where
  "covers blk element modifier =
     (case element of
        Some e \<Rightarrow>
          (case find (\<lambda>c. parent c = e) (children blk) of
             None \<Rightarrow> False
           | Some el \<Rightarrow>
               (case modifier of
                  None \<Rightarrow> True
                | Some m \<Rightarrow> list_ex (\<lambda>c. parent c = m) (children el)))
      | None \<Rightarrow>
          (case modifier of
             None \<Rightarrow> True
           | Some m \<Rightarrow> list_ex (\<lambda>c. parent c = m) (children blk)))"

definition covered :: "ISASSObject \<Rightarrow> string \<Rightarrow> bool" where
  "covered S t =
     (case match_block t of
        None \<Rightarrow> True
      | Some b \<Rightarrow>
          (case get_property S b of
             Undefined \<Rightarrow> False
           | Inherited \<Rightarrow> match_element t = None \<and> match_modifier t = None
           | Own blk \<Rightarrow> covers blk (match_element t) (match_modifier t)))"

section \<open>Comparators\<close>

text \<open>
  What \<open>Array.prototype.sort\<close> requires of its comparator for the order of the result to
  be defined, and what the language demands of \<open>localeCompare\<close>: any two strings compare
  one way or the other, and the comparison is transitive.
\<close>

definition consistent_comparator :: "(string \<Rightarrow> string \<Rightarrow> int) \<Rightarrow> bool" where
  "consistent_comparator cmp =
     ((\<forall>a b. cmp a b \<le> 0 \<or> cmp b a \<le> 0)
      \<and> (\<forall>a b c. cmp a b \<le> 0 \<and> cmp b c \<le> 0 \<longrightarrow> cmp a c \<le> 0))"

text \<open>A comparator for examples: strings by their characters' codes, lexicographically.\<close>

definition code_unit_compare :: "string \<Rightarrow> string \<Rightarrow> int" where
  "code_unit_compare a b = (if a < b then - 1 else if a = b then 0 else 1)"

section \<open>Class names that find their block\<close>

text \<open>
  \<open>blocks_registered_first seen classNames\<close>: every class name with an element or a
  modifier comes after a class name of its block that has neither (\<open>seen\<close> holds the
  blocks such names have opened so far; a block named like a property of
  \<open>Object.prototype\<close> is never opened).
\<close>

fun blocks_registered_first :: "string list \<Rightarrow> string list \<Rightarrow> bool" where
  "blocks_registered_first seen [] = True"
| "blocks_registered_first seen (className # classNames) =
     (case match_block className of
        None \<Rightarrow> blocks_registered_first seen classNames
      | Some b \<Rightarrow>
          if match_element className = None \<and> match_modifier className = None
          then blocks_registered_first
                 (if b \<in> set object_prototype_keys then seen else b # seen) classNames
          else b \<in> set seen \<and> blocks_registered_first seen classNames)"

section \<open>Evaluation\<close>

lemmas char_defs =
  is_alnum_def hyphen_def underscore_def space_def dquote_def squote_def newline_def
  tab_def is_quote_def

lemmas split_defs = splitClassNameByBEMRule_def match_block_def char_defs

lemmas extract_defs =
  extractSCSS_def extractSCSS_step_def addChildren_def get_property_def
  object_prototype_keys_def push_def sortBlocks_def
  sortSASSObjectChildren_def compareChildren_def startsWith_def split_defs

lemmas extract_ext_defs =
  extractSCSS_ext_def extractSCSS_step_ext_def addChildren_ext_def

section \<open>The tokenizer on the four shapes of a BEM class name\<close>

text \<open>
  C2. \<open>splitClassNameByBEMRule\<close> maps \<open>block\<close> to (\<open>block\<close>, absent, absent), \<open>block__el\<close>
  to (\<open>block\<close>, \<open>__el\<close>, absent), \<open>block--mod\<close> to (\<open>block\<close>, absent, \<open>--mod\<close>) and
  \<open>block__el--mod\<close> to (\<open>block\<close>, \<open>__el\<close>, \<open>--mod\<close>): the element keeps its leading \<open>__\<close>
  and the modifier its leading \<open>--\<close>.
\<close>

theorem splitClassNameByBEMRule_shapes:
  "splitClassNameByBEMRule ''block'' = (Some ''block'', None, None)
   \<and> splitClassNameByBEMRule ''block__el'' = (Some ''block'', Some ''__el'', None)
   \<and> splitClassNameByBEMRule ''block--mod'' = (Some ''block'', None, Some ''--mod'')
   \<and> splitClassNameByBEMRule ''block__el--mod'' = (Some ''block'', Some ''__el'', Some ''--mod'')"
  by (simp add: split_defs)

section \<open>A modifier marker before an element marker\<close>

text \<open>
  The modifier of \<open>a--b__c\<close> is absent: the only \<open>--\<close> of the token is followed by
  \<open>b__c\<close>, which is not an identifier up to the end of the token.
\<close>

theorem modifier_absent_before_element_marker:
  "snd (snd (splitClassNameByBEMRule ''a--b__c'')) = None"
  by (simp add: split_defs)

text \<open>
  C7, as amended. For the token \<open>a--b__c\<close> the element pattern matches (\<open>__c\<close>) and the
  modifier pattern, anchored at the end of the token, does not: the result is
  (\<open>a\<close>, \<open>__c\<close>, absent).
\<close>

theorem split_out_of_order:
  "splitClassNameByBEMRule ''a--b__c'' = (Some ''a'', Some ''__c'', None)"
  by (simp add: split_defs)

section \<open>A class name that opens its block with an element or a modifier\<close>

text \<open>
  C1 fails on the code. \<open>extractSCSS\<close> of the canonical file throws a \<open>TypeError\<close> when the
  first class name of a block carries an element or a modifier: \<open>alreadyBlock\<close> was read
  before the block was created. So it does on the class names of the repository's own
  \<open>src/App.jsx\<close>, at \<open>view-cart__image\<close>. The version of \<open>src/extension.ts\<close>, which reads
  the block again, returns the forest on the same inputs.
\<close>

theorem extractSCSS_new_block_with_child_throws:
  "extractSCSS localeCompare [''a__b''] = Inl TypeError
   \<and> extractSCSS localeCompare [''a--b''] = Inl TypeError
   \<and> extractSCSS localeCompare
         [''app'', ''app__header'', ''app__header--mobile'', ''app__heading--h1'', ''view-card'',
          ''view-cart__image'', ''view-cart__body'', ''view-cart__title'', ''view-cart__sub-title'']
       = Inl TypeError
   \<and> extractSCSS_ext [''a__b''] = Inr [(''a'', SASSObjectItem ''a'' [SASSObjectItem ''__b'' []])]
   \<and> extractSCSS_ext [''a--b''] = Inr [(''a'', SASSObjectItem ''a'' [SASSObjectItem ''--b'' []])]
   \<and> extractSCSS_ext
         [''app'', ''app__header'', ''app__header--mobile'', ''app__heading--h1'', ''view-card'',
          ''view-cart__image'', ''view-cart__body'', ''view-cart__title'', ''view-cart__sub-title'']
       = Inr [(''app'', SASSObjectItem ''app''
                [SASSObjectItem ''__header'' [SASSObjectItem ''--mobile'' []],
                 SASSObjectItem ''__heading'' [SASSObjectItem ''--h1'' []]]),
              (''view-card'', SASSObjectItem ''view-card'' []),
              (''view-cart'', SASSObjectItem ''view-cart''
                [SASSObjectItem ''__image'' [], SASSObjectItem ''__body'' [],
                 SASSObjectItem ''__title'' [], SASSObjectItem ''__sub-title'' []])]"
  by (simp add: extract_defs extract_ext_defs)

section \<open>Class names without a block\<close>

lemma extractSCSS_loop_append:
  "extractSCSS_loop S (xs @ ys) =
     (case extractSCSS_loop S xs of Inl e \<Rightarrow> Inl e | Inr S' \<Rightarrow> extractSCSS_loop S' ys)"
  by (induction xs arbitrary: S) (auto split: sum.splits)

lemma match_block_None_iff: "match_block s = None \<longleftrightarrow> (s = [] \<or> \<not> is_alnum (hd s))"
  by (cases s) (auto simp: match_block_def)

lemma extractSCSS_step_no_block:
  "match_block t = None \<Longrightarrow> extractSCSS_step S t = Inr S"
  by (simp add: extractSCSS_step_def splitClassNameByBEMRule_def)

text \<open>
  C8. A class token with no match of the block pattern at its start gives three absent
  components, and \<open>extractSCSS\<close> returns with it what it returns without it (the same
  forest, or the same error of another token): the token changes nothing and raises
  nothing.
\<close>

theorem extractSCSS_skips_blockless_token:
  assumes "match_block classToken = None"
  shows "splitClassNameByBEMRule classToken = (None, None, None)
         \<and> extractSCSS localeCompare (before @ [classToken] @ after)
             = extractSCSS localeCompare (before @ after)"
  using assms
  by (simp add: splitClassNameByBEMRule_def extractSCSS_def extractSCSS_loop_append
        extractSCSS_step_no_block split: sum.splits)

theorem extractSCSS_skips_blockless_token_witness:
  "match_block ''__x'' = None
   \<and> splitClassNameByBEMRule ''__x'' = (None, None, None)
   \<and> extractSCSS (\<lambda>a b. 0) ([''b''] @ [''__x''] @ [''b--m''])
       = Inr [(''b'', SASSObjectItem ''b'' [SASSObjectItem ''--m'' []])]"
proof -
  have h: "match_block ''__x'' = None"
    by (simp add: split_defs)
  have e: "extractSCSS (\<lambda>a b. 0) ([''b''] @ [''b--m''])
             = Inr [(''b'', SASSObjectItem ''b'' [SASSObjectItem ''--m'' []])]"
    by (simp add: extract_defs)
  from extractSCSS_skips_blockless_token [OF h, of "\<lambda>a b. 0" "[''b'']" "[''b--m'']"] h e
  show ?thesis by simp
qed

section \<open>The tokens of the class attributes\<close>

lemma split_space_not_Nil: "split_space s \<noteq> []"
  by (induction s) (auto split: list.splits)

lemma words_of_not_Nil: "single_spaced s \<Longrightarrow> words_of s \<noteq> []"
  by (induction s rule: single_spaced.induct) (auto split: list.splits)

lemma single_spaced_split: "single_spaced s \<Longrightarrow> split_space s = words_of s"
proof (induction s rule: single_spaced.induct)
  case 1
  then show ?case by simp
next
  case (2 c)
  then show ?case by (auto simp: is_whitespace_def)
next
  case (3 c d cs)
  show ?case
  proof (cases "d = space")
    case True
    with 3 have "split_space cs = words_of cs" and c: "\<not> is_whitespace c"
      by auto
    moreover from c have "c \<noteq> space" by (auto simp: is_whitespace_def)
    moreover have "is_whitespace space" by (simp add: is_whitespace_def)
    ultimately show ?thesis using True
      by simp
  next
    case False
    with 3 have ss: "single_spaced (d # cs)" and ih: "split_space (d # cs) = words_of (d # cs)"
      and c: "\<not> is_whitespace c"
      by auto
    from ss have d: "\<not> is_whitespace d"
      by (cases cs) auto
    from c have "c \<noteq> space" by (auto simp: is_whitespace_def)
    with ih c d show ?thesis
      by (simp del: split_space.simps(2) words_of.simps(2)
            add: split_space.simps(2) [of c] words_of.simps(2) [of c])
  qed
qed

lemmas class_defs = getAllClassName_def match_class_at_def is_whitespace_def char_defs

text \<open>
  C3 fails on the code. The claim asks for one token for each whitespace-separated
  word of the matched attribute values. \<open>getAllClassName\<close> splits a value at every single
  space and nowhere else: two spaces between two class names give an empty token (three
  tokens for the two words of \<open>class="a  b"\<close>), a value of one space gives two empty
  tokens where there is no class name, and a tab or a line break between two class names
  leaves them in one token.
\<close>

theorem getAllClassName_tokens_not_words:
  "getAllClassName (''class='' @ [dquote] @ ''a  b'' @ [dquote]) = [''a'', [], ''b'']
   \<and> concat (map words_of (matchAll_class (''class='' @ [dquote] @ ''a  b'' @ [dquote])))
       = [''a'', ''b'']
   \<and> getAllClassName (''class='' @ [dquote] @ '' '' @ [dquote]) = [[], []]
   \<and> concat (map words_of (matchAll_class (''class='' @ [dquote] @ '' '' @ [dquote]))) = []
   \<and> getAllClassName (''className='' @ [squote] @ ''a'' @ [tab] @ ''b'' @ [squote])
       = [''a'' @ [tab] @ ''b'']
   \<and> concat (map words_of (matchAll_class (''className='' @ [squote] @ ''a'' @ [tab] @ ''b'' @ [squote])))
       = [''a'', ''b'']
   \<and> getAllClassName (''class='' @ [dquote] @ ''a'' @ [newline] @ ''b__c'' @ [dquote])
       = [''a'' @ [newline] @ ''b__c'']
   \<and> splitClassNameByBEMRule (''a'' @ [newline] @ ''b__c'') = (Some ''a'', Some ''__c'', None)"
  by (simp add: class_defs splitClassNameByBEMRule_def match_block_def)

subsection \<open>An attribute at the head of the text\<close>

lemma strip_prefix_append: "strip_prefix p (p @ s) = Some s"
  by (induction p) auto

lemma takeWhile_value:
  "\<forall>c\<in>set v. \<not> is_quote c \<Longrightarrow> is_quote q \<Longrightarrow>
   takeWhile (\<lambda>c. \<not> is_quote c) (v @ q # rest) = v
   \<and> dropWhile (\<lambda>c. \<not> is_quote c) (v @ q # rest) = q # rest"
  by (induction v) auto

lemma match_class_at_attribute:
  assumes "name = [] \<or> name = ''Name''" "is_quote q" "is_quote q'"
    and "v \<noteq> []" "\<forall>c\<in>set v. \<not> is_quote c"
  shows "match_class_at (''class'' @ name @ ''='' @ [q] @ v @ [q'] @ rest) = Some (v, rest)"
proof -
  have s: "strip_prefix ''class'' (''class'' @ name @ ''='' @ [q] @ v @ [q'] @ rest)
             = Some (name @ ''='' @ [q] @ v @ [q'] @ rest)"
    by (rule strip_prefix_append)
  have r2: "(case strip_prefix ''Name'' (name @ ''='' @ [q] @ v @ [q'] @ rest) of
               Some r \<Rightarrow> r | None \<Rightarrow> name @ ''='' @ [q] @ v @ [q'] @ rest)
            = CHR ''='' # q # (v @ q' # rest)"
    using assms(1) by auto
  from takeWhile_value [OF assms(5,3), of rest]
  have t: "takeWhile (\<lambda>c. \<not> is_quote c) (v @ q' # rest) = v"
    and d: "dropWhile (\<lambda>c. \<not> is_quote c) (v @ q' # rest) = q' # rest"
    by blast+
  show ?thesis
    unfolding match_class_at_def s option.case r2 Let_def list.case t d
    using assms(2,4) by simp
qed

lemma matchAll_class_attribute:
  assumes "name = [] \<or> name = ''Name''" "is_quote q" "is_quote q'"
    and "v \<noteq> []" "\<forall>c\<in>set v. \<not> is_quote c"
  shows "matchAll_class (''class'' @ name @ ''='' @ [q] @ v @ [q'] @ rest) = v # matchAll_class rest"
proof -
  define s' where "s' = ''lass'' @ name @ ''='' @ [q] @ v @ [q'] @ rest"
  have e: "''class'' @ name @ ''='' @ [q] @ v @ [q'] @ rest = CHR ''c'' # s'"
    by (simp add: s'_def)
  from match_class_at_attribute [OF assms, of rest]
  have "match_class_at (CHR ''c'' # s') = Some (v, rest)"
    unfolding e .
  then show ?thesis
    unfolding e by simp
qed

text \<open>
  On attributes whose values keep to one space between two class names the tokens are
  the words. A text that begins with \<open>class=\<close> or
  \<open>className=\<close>, a quote of either kind, a value without quotes and a quote of either kind
  gives the pieces of the value between its spaces, then the tokens of the rest of the
  text; the pieces are the whitespace-separated words of the value when it is made of
  words with exactly one space between two of them. A character that begins no match is
  passed over.
\<close>

theorem getAllClassName_attribute:
  assumes "name = [] \<or> name = ''Name''" "is_quote q" "is_quote q'"
    and "v \<noteq> []" "\<forall>c\<in>set v. \<not> is_quote c"
  shows "getAllClassName (''class'' @ name @ ''='' @ [q] @ v @ [q'] @ rest)
           = split_space v @ getAllClassName rest
         \<and> (single_spaced v \<longrightarrow>
              getAllClassName (''class'' @ name @ ''='' @ [q] @ v @ [q'] @ rest)
                = words_of v @ getAllClassName rest)
         \<and> (match_class_at (c # cs) = None \<longrightarrow>
              getAllClassName (c # cs) = getAllClassName cs)"
proof -
  have a: "getAllClassName (''class'' @ name @ ''='' @ [q] @ v @ [q'] @ rest)
             = split_space v @ getAllClassName rest"
    unfolding getAllClassName_def matchAll_class_attribute [OF assms] by simp
  have b: "match_class_at (c # cs) = None \<Longrightarrow> getAllClassName (c # cs) = getAllClassName cs"
    by (simp add: getAllClassName_def)
  from a b single_spaced_split [of v] show ?thesis
    by simp
qed

theorem getAllClassName_attribute_witness:
  "getAllClassName (''class'' @ ''Name'' @ ''='' @ [squote] @ ''a b__c'' @ [dquote] @ ''>'')
     = [''a'', ''b__c'']
   \<and> getAllClassName (''class'' @ [] @ ''='' @ [dquote] @ ''a b__c'' @ [dquote] @ ''>'')
     = [''a'', ''b__c'']"
proof -
  have q: "is_quote squote" "is_quote dquote"
    by (simp_all add: is_quote_def)
  have n: "''Name'' = [] \<or> ''Name'' = ''Name''" "([] :: string) = [] \<or> ([] :: string) = ''Name''"
    by simp_all
  have v: "''a b__c'' \<noteq> []" "\<forall>c\<in>set ''a b__c''. \<not> is_quote c"
    by (simp_all add: char_defs)
  have ss: "single_spaced ''a b__c''"
    by (simp add: char_defs is_whitespace_def)
  have w: "words_of ''a b__c'' @ getAllClassName ''>'' = [''a'', ''b__c'']"
    by (simp add: class_defs)
  from getAllClassName_attribute [OF n(1) q(1) q(2) v, of "''>''"] ss
  have "getAllClassName (''class'' @ ''Name'' @ ''='' @ [squote] @ ''a b__c'' @ [dquote] @ ''>'')
          = words_of ''a b__c'' @ getAllClassName ''>''"
    by blast
  moreover
  from getAllClassName_attribute [OF n(2) q(2) q(2) v, of "''>''"] ss
  have "getAllClassName (''class'' @ [] @ ''='' @ [dquote] @ ''a b__c'' @ [dquote] @ ''>'')
          = words_of ''a b__c'' @ getAllClassName ''>''"
    by blast
  ultimately show ?thesis
    unfolding w by (rule conjI)
qed

section \<open>Facts about the matchers, the properties and the loop\<close>

lemma ident_rest_chars: "list_all name_char (ident_rest s)"
  by (induction s rule: ident_rest.induct) (auto simp: name_char_def split: list.splits)

lemma ident_chars: "ident s = Some i \<Longrightarrow> list_all name_char i"
  by (cases s) (auto simp: ident_rest_chars name_char_def split: if_splits)

lemma match_block_chars: "match_block s = Some b \<Longrightarrow> list_all name_char b"
  by (simp add: match_block_def ident_chars)

lemma match_element_shape:
  "match_element s = Some e \<Longrightarrow> \<exists>i. e = underscore # underscore # i \<and> list_all name_char i"
  by (induction s rule: match_element.induct)
     (auto split: option.splits if_splits list.splits dest: ident_chars)

lemma match_modifier_shape:
  "match_modifier s = Some m \<Longrightarrow> \<exists>i. m = hyphen # hyphen # i \<and> list_all name_char i"
  by (induction s rule: match_modifier.induct)
     (auto split: option.splits if_splits list.splits dest: ident_chars)

lemma match_element_chars: "match_element s = Some e \<Longrightarrow> list_all name_char e"
  by (auto dest: match_element_shape simp: name_char_def)

lemma match_modifier_chars: "match_modifier s = Some m \<Longrightarrow> list_all name_char m"
  by (auto dest: match_modifier_shape simp: name_char_def)

lemma match_element_not_modifier: "match_element s = Some e \<Longrightarrow> \<not> startsWith e ''--''"
  by (auto dest!: match_element_shape simp: startsWith_def underscore_def)

lemma match_modifier_is_modifier: "match_modifier s = Some m \<Longrightarrow> startsWith m ''--''"
  by (auto dest!: match_modifier_shape simp: startsWith_def hyphen_def)

lemma name_char_brace_free: "list_all name_char s \<Longrightarrow> brace_free s"
  by (auto simp: list_all_iff brace_free_def name_char_def char_defs lbrace_def rbrace_def)

subsection \<open>Reading and writing properties\<close>

lemma get_property_Own: "get_property S k = Own blk \<Longrightarrow> map_of S k = Some blk"
  by (auto simp: get_property_def split: option.splits if_splits)

lemma get_property_Own_mem: "get_property S k = Own blk \<Longrightarrow> (k, blk) \<in> set S"
  by (auto dest: get_property_Own map_of_SomeD)

lemma get_property_Undefined: "get_property S k = Undefined \<Longrightarrow> k \<notin> fst ` set S"
  by (auto simp: get_property_def map_of_eq_None_iff split: option.splits if_splits)

lemma keys_set_property: "map fst (set_property k v S) = map fst S"
  by (induction S) auto

lemma values_set_property:
  "list_all (\<lambda>(k, b). P b) S \<Longrightarrow> P v \<Longrightarrow> list_all (\<lambda>(k, b). P b) (set_property k v S)"
  by (induction S) auto

lemma map_of_set_property:
  "map_of (set_property k v S) k' = (if k' = k \<and> k \<in> fst ` set S then Some v else map_of S k')"
  by (induction S) (force split: if_splits)+

lemma set_property_same: "map_of S k = Some v \<Longrightarrow> set_property k v S = S"
  by (induction S) (auto split: if_splits)

subsection \<open>Invariants of the loop\<close>

lemma extractSCSS_step_cases:
  assumes "extractSCSS_step S t = Inr S'"
  obtains (skip) "match_block t = None" "S' = S"
  | (new) b where "match_block t = Some b" "match_element t = None" "match_modifier t = None"
      "get_property S b = Undefined" "S' = S @ [(b, SASSObjectItem b [])]"
  | (old) b where "match_block t = Some b" "match_element t = None" "match_modifier t = None"
      "get_property S b \<noteq> Undefined" "S' = S"
  | (add) b blk where "match_block t = Some b" "get_property S b = Own blk"
      "match_element t \<noteq> None \<or> match_modifier t \<noteq> None"
      "S' = set_property b (addChildren blk (match_element t) (match_modifier t)) S"
  using assms
  by (auto simp: extractSCSS_step_def splitClassNameByBEMRule_def Let_def
      split: option.splits property.splits if_splits)

lemma extractSCSS_step_keys:
  assumes "extractSCSS_step S t = Inr S'" "distinct (map fst S)"
  shows "distinct (map fst S')"
  using assms(1)
proof (cases rule: extractSCSS_step_cases)
  case (new b)
  with assms(2) show ?thesis by (auto dest: get_property_Undefined)
qed (use assms(2) in \<open>simp_all add: keys_set_property\<close>)

lemma extractSCSS_step_values:
  assumes "extractSCSS_step S t = Inr S'"
    and "list_all (\<lambda>(k, b). P b) S"
    and "\<And>b. match_block t = Some b \<Longrightarrow> P (SASSObjectItem b [])"
    and "\<And>blk. P blk \<Longrightarrow> P (addChildren blk (match_element t) (match_modifier t))"
  shows "list_all (\<lambda>(k, b). P b) S'"
  using assms(1)
proof (cases rule: extractSCSS_step_cases)
  case (add b blk)
  from add(2) assms(2) have "P blk"
    by (auto dest!: get_property_Own_mem simp: list_all_iff)
  with add assms show ?thesis by (simp add: values_set_property)
qed (use assms in simp_all)

lemma extractSCSS_loop_values:
  assumes "extractSCSS_loop S ts = Inr S'"
    and "list_all (\<lambda>(k, b). P b) S"
    and "\<And>t b. match_block t = Some b \<Longrightarrow> P (SASSObjectItem b [])"
    and "\<And>t blk. P blk \<Longrightarrow> P (addChildren blk (match_element t) (match_modifier t))"
  shows "list_all (\<lambda>(k, b). P b) S'"
  using assms(1,2)
proof (induction ts arbitrary: S)
  case Nil
  then show ?case by simp
next
  case (Cons t ts)
  then obtain S1 where s: "extractSCSS_step S t = Inr S1" and l: "extractSCSS_loop S1 ts = Inr S'"
    by (auto split: sum.splits)
  from extractSCSS_step_values [of S t S1 P, OF s Cons.prems(2)] assms(3,4)
  have "list_all (\<lambda>(k, b). P b) S1" by blast
  with Cons.IH l show ?case by blast
qed

lemma extractSCSS_loop_keys:
  "extractSCSS_loop S ts = Inr S' \<Longrightarrow> distinct (map fst S) \<Longrightarrow> distinct (map fst S')"
  by (induction ts arbitrary: S) (auto split: sum.splits dest: extractSCSS_step_keys)

subsection \<open>The sort is a permutation\<close>

lemma set_insert_sorted: "set (insert_sorted cmp x ys) = insert x (set ys)"
  by (induction ys) auto

lemma set_sortSASSObjectChildren: "set (sortSASSObjectChildren lc cs) = set cs"
  by (induction cs) (auto simp: sortSASSObjectChildren_def set_insert_sorted)

lemma distinct_map_insert_sorted:
  "distinct (map f (insert_sorted cmp x ys)) = (f x \<notin> f ` set ys \<and> distinct (map f ys))"
  by (induction ys) (auto simp: set_insert_sorted)

lemma distinct_map_sortSASSObjectChildren:
  "distinct (map f (sortSASSObjectChildren lc cs)) = distinct (map f cs)"
  by (induction cs)
     (auto simp: sortSASSObjectChildren_def distinct_map_insert_sorted
        set_sortSASSObjectChildren [unfolded sortSASSObjectChildren_def])

lemma sortBlocks_values:
  assumes "list_all (\<lambda>(k, b). P b) S"
    and "\<And>blk. P blk \<Longrightarrow> P (SASSObjectItem (parent blk) (sortSASSObjectChildren lc (children blk)))"
  shows "list_all (\<lambda>(k, b). P b) (sortBlocks lc S)"
  using assms by (auto simp: sortBlocks_def list_all_iff)

subsection \<open>Names without braces\<close>

lemma brace_free_item_iff:
  "brace_free_item item = (brace_free (parent item) \<and> list_all brace_free_item (children item))"
  by (cases item) simp

lemma parent_push [simp]: "parent (push blk child) = parent blk"
  by (simp add: push_def)

lemma children_push [simp]: "children (push blk child) = children blk @ [child]"
  by (simp add: push_def)

lemma brace_free_push:
  "brace_free_item blk \<Longrightarrow> brace_free_item child \<Longrightarrow> brace_free_item (push blk child)"
  by (simp add: brace_free_item_iff [of blk] brace_free_item_iff [of "push blk child"])

lemma brace_free_push_under:
  "list_all brace_free_item cs \<Longrightarrow> brace_free_item child
   \<Longrightarrow> list_all brace_free_item (push_under name child cs)"
  by (induction cs) (auto simp: brace_free_push)

lemma brace_free_addChildren:
  assumes "brace_free_item blk"
    and "\<And>e. element = Some e \<Longrightarrow> brace_free e"
    and "\<And>m. modifier = Some m \<Longrightarrow> brace_free m"
  shows "brace_free_item (addChildren blk element modifier)"
proof (cases element)
  case None
  show ?thesis
  proof (cases modifier)
    case m: None
    with None assms(1) show ?thesis by (simp add: addChildren_def)
  next
    case (Some m)
    with None assms(1,3) show ?thesis by (simp add: addChildren_def brace_free_push)
  qed
next
  case (Some e)
  define blk1 where "blk1 = (if find (\<lambda>child. parent child = e) (children blk) = None
                      then push blk (SASSObjectItem e []) else blk)"
  have b1: "brace_free_item blk1"
    using assms(1,2) Some by (simp add: blk1_def brace_free_push)
  show ?thesis
  proof (cases modifier)
    case None
    with Some b1 show ?thesis by (simp add: addChildren_def blk1_def)
  next
    case m: (Some m)
    have "brace_free_item (SASSObjectItem (parent blk1) (push_under e (SASSObjectItem m []) (children blk1)))"
      using b1 assms(3) m by (simp add: brace_free_item_iff [of blk1] brace_free_push_under)
    with Some m b1 show ?thesis
      by (simp add: addChildren_def Let_def blk1_def [symmetric])
  qed
qed

lemma extractSCSS_brace_free:
  assumes "extractSCSS lc cs = Inr f"
  shows "brace_free_forest f"
proof -
  from assms obtain S where l: "extractSCSS_loop [] cs = Inr S" and f: "f = sortBlocks lc S"
    by (auto simp: extractSCSS_def split: sum.splits)
  have "list_all (\<lambda>(k, b). brace_free_item b) S"
  proof (rule extractSCSS_loop_values [OF l])
    show "list_all (\<lambda>(k, b). brace_free_item b) []" by simp
  next
    fix t b assume "match_block t = Some b"
    then show "brace_free_item (SASSObjectItem b [])"
      by (simp add: match_block_chars name_char_brace_free)
  next
    fix t blk assume "brace_free_item blk"
    then show "brace_free_item (addChildren blk (match_element t) (match_modifier t))"
      by (rule brace_free_addChildren)
         (simp_all add: match_element_chars match_modifier_chars name_char_brace_free)
  qed
  then have "list_all (\<lambda>(k, b). brace_free_item b) (sortBlocks lc S)"
  proof (rule sortBlocks_values)
    fix blk assume "brace_free_item blk"
    then show "brace_free_item (SASSObjectItem (parent blk) (sortSASSObjectChildren lc (children blk)))"
      by (cases blk) (simp add: list_all_iff set_sortSASSObjectChildren)
  qed
  with f show ?thesis by (simp add: brace_free_forest_def)
qed

section \<open>Balanced braces\<close>

lemma brace_scan_append:
  "brace_scan (xs @ ys) d = (case brace_scan xs d of None \<Rightarrow> None | Some d' \<Rightarrow> brace_scan ys d')"
  by (induction xs arbitrary: d) (auto split: nat.splits)

lemma brace_scan_free: "brace_free s \<Longrightarrow> brace_scan s d = Some d"
  by (induction s) (auto simp: brace_free_def)

lemma brace_scan_count:
  "brace_scan s d = Some d' \<Longrightarrow> d + count_list s lbrace = d' + count_list s rbrace"
proof (induction s arbitrary: d)
  case Nil
  then show ?case by simp
next
  case (Cons c cs)
  show ?case
  proof (cases "c = lbrace")
    case True
    with Cons.prems have "brace_scan cs (Suc d) = Some d'" by simp
    from Cons.IH [OF this] True show ?thesis by (simp add: lbrace_def rbrace_def)
  next
    case False
    show ?thesis
    proof (cases "c = rbrace")
      case True
      with False Cons.prems obtain below where d: "d = Suc below" and "brace_scan cs below = Some d'"
        by (auto split: nat.splits)
      from Cons.IH [OF this(2)] True d show ?thesis by (simp add: lbrace_def rbrace_def)
    next
      case nr: False
      with False Cons.prems have "brace_scan cs d = Some d'" by simp
      from Cons.IH [OF this] False nr show ?thesis by simp
    qed
  qed
qed

lemma brace_scan_prefix: "brace_free p \<Longrightarrow> brace_scan (p @ s) d = brace_scan s d"
  by (simp add: brace_scan_append brace_scan_free)

lemma brace_scan_concat:
  assumes "\<And>x d. x \<in> set xs \<Longrightarrow> brace_scan (f x) d = Some d"
  shows "brace_scan (concat (map f xs)) d = Some d"
  using assms by (induction xs) (auto simp: brace_scan_append)

lemma brace_scan_open: "brace_scan ('' {'' @ s) d = brace_scan s (Suc d)"
  by (simp add: lbrace_def rbrace_def)

lemma brace_scan_close: "brace_scan (''}'' @ s) (Suc d) = brace_scan s d"
  by (simp add: lbrace_def rbrace_def)

lemma brace_free_indent: "brace_free (replicate n tab)"
  by (auto simp: brace_free_def tab_def lbrace_def rbrace_def)

lemma brace_free_selector:
  "brace_free name \<Longrightarrow> brace_free (if ps = [] then ''.'' @ name else ''&'' @ name)"
  by (auto simp: brace_free_def lbrace_def rbrace_def)

lemma brace_free_misc:
  "brace_free [newline]" "brace_free (''  '' @ [newline])" "brace_free []"
  by (auto simp: brace_free_def lbrace_def rbrace_def newline_def)

lemma parseToSCSS_scan:
  "brace_free_item item \<Longrightarrow> brace_scan (parseToSCSS item ps lvl) d = Some d"
proof (induction item arbitrary: ps lvl d)
  case (SASSObjectItem name cs)
  then have nm: "brace_free name" and kids: "\<And>c. c \<in> set cs \<Longrightarrow> brace_free_item c"
    by (auto simp: list_all_iff)
  define sel where "sel = (if ps = [] then ''.'' @ name else ''&'' @ name)"
  define ind where "ind = replicate lvl tab"
  define body where "body = concat (map (\<lambda>child. parseToSCSS child sel (lvl + 1)) cs)"
  define tail where "tail = (if lvl = 0 then [newline] else [])"
  have out: "parseToSCSS (SASSObjectItem name cs) ps lvl
      = ind @ sel @ ('' {'' @ ([newline] @ ind @ (''  '' @ [newline]) @ body @ ind @ (''}'' @ ([newline] @ tail))))"
    by (simp add: sel_def ind_def body_def tail_def Let_def)
  have f1: "brace_free ind" "brace_free sel" "brace_free tail"
    using nm by (simp_all add: ind_def sel_def tail_def brace_free_indent brace_free_selector brace_free_misc)
  have b: "brace_scan body e = Some e" for e
    unfolding body_def using SASSObjectItem.IH kids by (intro brace_scan_concat) blast
  have body_prefix: "brace_scan (body @ s) e = brace_scan s e" for s e
    by (simp add: brace_scan_append b)
  show ?case
    unfolding out
    by (simp only: brace_scan_prefix f1 brace_free_misc body_prefix brace_scan_open
          brace_scan_close brace_scan_free)
qed

lemma set_Object_values: "set (Object_values obj) \<subseteq> snd ` set obj"
  by (auto simp: Object_values_def)

lemma generateSCSS_scan:
  assumes "brace_free_forest obj"
  shows "brace_scan (generateSCSS obj) d = Some d"
  unfolding generateSCSS_def
proof (rule brace_scan_concat)
  fix x e assume "x \<in> set (Object_values obj)"
  then have "x \<in> snd ` set obj" using set_Object_values by blast
  with assms have "brace_free_item x"
    by (auto simp: brace_free_forest_def list_all_iff)
  then show "brace_scan (parseToSCSS x [] 0) e = Some e" by (rule parseToSCSS_scan)
qed

text \<open>
  C9. For every forest whose names hold no brace, and so for every forest that
  \<open>extractSCSS\<close> returns (a name is a match of one of the three patterns), the text of
  \<open>generateSCSS\<close> and the text of \<open>parseToSCSS\<close> for each block have as many opening as
  closing braces, and no closing brace comes before the opening brace it closes.
\<close>

theorem generateSCSS_braces_balanced:
  assumes "brace_free_forest sassObject \<or> extractSCSS localeCompare classNames = Inr sassObject"
  shows "balanced (generateSCSS sassObject)
         \<and> count_list (generateSCSS sassObject) lbrace = count_list (generateSCSS sassObject) rbrace
         \<and> list_all (\<lambda>block. balanced (parseToSCSS block [] 0)
                        \<and> count_list (parseToSCSS block [] 0) lbrace
                            = count_list (parseToSCSS block [] 0) rbrace)
              (Object_values sassObject)"
proof -
  from assms have bf: "brace_free_forest sassObject"
    by (auto dest: extractSCSS_brace_free)
  have whole: "brace_scan (generateSCSS sassObject) 0 = Some 0"
    using bf by (rule generateSCSS_scan)
  have each: "brace_scan (parseToSCSS block [] 0) 0 = Some 0"
    if "block \<in> set (Object_values sassObject)" for block
  proof -
    from that set_Object_values have "block \<in> snd ` set sassObject" by blast
    with bf have "brace_free_item block"
      by (auto simp: brace_free_forest_def list_all_iff)
    then show ?thesis by (rule parseToSCSS_scan)
  qed
  from whole brace_scan_count [OF whole] each brace_scan_count [OF each]
  show ?thesis
    by (simp add: balanced_def list_all_iff)
qed

theorem generateSCSS_braces_balanced_witness:
  "extractSCSS (\<lambda>a b. 0) [''app'', ''app__header'', ''app__header--mobile'', ''app__heading--h1'']
     = Inr [(''app'', SASSObjectItem ''app''
              [SASSObjectItem ''__header'' [SASSObjectItem ''--mobile'' []],
               SASSObjectItem ''__heading'' [SASSObjectItem ''--h1'' []]])]
   \<and> balanced (generateSCSS [(''app'', SASSObjectItem ''app''
              [SASSObjectItem ''__header'' [SASSObjectItem ''--mobile'' []],
               SASSObjectItem ''__heading'' [SASSObjectItem ''--h1'' []]])])
   \<and> count_list (generateSCSS [(''app'', SASSObjectItem ''app''
              [SASSObjectItem ''__header'' [SASSObjectItem ''--mobile'' []],
               SASSObjectItem ''__heading'' [SASSObjectItem ''--h1'' []]])]) lbrace = 5"
proof -
  let ?f = "[(''app'', SASSObjectItem ''app''
              [SASSObjectItem ''__header'' [SASSObjectItem ''--mobile'' []],
               SASSObjectItem ''__heading'' [SASSObjectItem ''--h1'' []]])]"
  have e: "extractSCSS (\<lambda>a b. 0) [''app'', ''app__header'', ''app__header--mobile'', ''app__heading--h1''] = Inr ?f"
    by (simp add: extract_defs)
  have n: "count_list (generateSCSS ?f) lbrace = 5"
    by (simp add: generateSCSS_def Object_values_def is_array_index_def is_digit_def lbrace_def
          tab_def newline_def)
  from generateSCSS_braces_balanced [of ?f "\<lambda>a b. 0", OF disjI2, OF e] e n
  show ?thesis by simp
qed

section \<open>The shape the loop keeps\<close>

lemma find_None_names: "(find (\<lambda>c. parent c = n) cs = None) = (n \<notin> parent ` set cs)"
  by (induction cs) auto

lemma list_ex_names: "list_ex (\<lambda>c. parent c = n) cs = (n \<in> parent ` set cs)"
  by (induction cs) auto

lemma find_Some_name: "find (\<lambda>c. parent c = n) cs = Some el \<Longrightarrow> el \<in> set cs \<and> parent el = n"
  by (induction cs) (auto split: if_splits)

lemma names_push_under: "map parent (push_under n child cs) = map parent cs"
  by (induction cs) auto

lemma wf_child_new: "wf_child (SASSObjectItem n [])"
  by (simp add: wf_child_def)

lemma wf_child_push_under:
  assumes "list_all wf_child cs" "\<not> startsWith e ''--''" "startsWith m ''--''"
    and "find (\<lambda>c. parent c = e) cs = Some el" "m \<notin> parent ` set (children el)"
  shows "list_all wf_child (push_under e (SASSObjectItem m []) cs)"
  using assms
proof (induction cs)
  case Nil
  then show ?case by simp
next
  case (Cons c cs)
  show ?case
  proof (cases "parent c = e")
    case True
    with Cons.prems have el: "el = c" by simp
    from Cons.prems have "wf_child c" by simp
    with el True Cons.prems(2,3,5) have "wf_child (push c (SASSObjectItem m []))"
      by (auto simp: wf_child_def is_modifier_leaf_def)
    with True Cons.prems(1) show ?thesis by simp
  next
    case False
    with Cons show ?thesis by simp
  qed
qed

lemma wf_block_addChildren:
  assumes wf: "wf_block blk"
    and el: "\<And>e. element = Some e \<Longrightarrow> \<not> startsWith e ''--''"
    and md: "\<And>m. modifier = Some m \<Longrightarrow> startsWith m ''--''"
  shows "wf_block (addChildren blk element modifier)"
proof (cases element)
  case None
  show ?thesis
  proof (cases modifier)
    case m: None
    with None wf show ?thesis by (simp add: addChildren_def)
  next
    case (Some m)
    with None wf show ?thesis
      by (auto simp: addChildren_def wf_block_def list_ex_names wf_child_new)
  qed
next
  case (Some e)
  define blk1 where "blk1 = (if find (\<lambda>child. parent child = e) (children blk) = None
                      then push blk (SASSObjectItem e []) else blk)"
  have b1: "wf_block blk1"
    using wf by (auto simp: blk1_def wf_block_def find_None_names wf_child_new)
  have found: "find (\<lambda>child. parent child = e) (children blk1) \<noteq> None"
    by (auto simp: blk1_def find_None_names)
  show ?thesis
  proof (cases modifier)
    case None
    with Some b1 show ?thesis by (simp add: addChildren_def blk1_def)
  next
    case m: (Some m)
    from found obtain el where f: "find (\<lambda>child. parent child = e) (children blk1) = Some el"
      by auto
    show ?thesis
    proof (cases "list_ex (\<lambda>c. parent c = m) (children el)")
      case True
      with Some m f b1 show ?thesis
        by (simp add: addChildren_def Let_def blk1_def [symmetric])
    next
      case False
      then have "m \<notin> parent ` set (children el)" by (simp add: list_ex_names)
      with b1 f el [OF Some] md [OF m]
      have "list_all wf_child (push_under e (SASSObjectItem m []) (children blk1))"
        by (intro wf_child_push_under) (auto simp: wf_block_def)
      with b1 have "wf_block (SASSObjectItem (parent blk1) (push_under e (SASSObjectItem m []) (children blk1)))"
        by (simp add: wf_block_def names_push_under)
      with Some m f False show ?thesis
        by (simp add: addChildren_def Let_def blk1_def [symmetric])
    qed
  qed
qed

lemma wf_block_sorted:
  "wf_block blk \<Longrightarrow> wf_block (SASSObjectItem (parent blk) (sortSASSObjectChildren lc (children blk)))"
  by (simp add: wf_block_def distinct_map_sortSASSObjectChildren list_all_iff
        set_sortSASSObjectChildren)

lemma extractSCSS_loop_wf:
  assumes "extractSCSS_loop [] cs = Inr S"
  shows "list_all (\<lambda>(k, b). wf_block b) S"
proof (rule extractSCSS_loop_values [OF assms])
  show "list_all (\<lambda>(k, b). wf_block b) []" by simp
next
  fix t b assume "match_block t = Some b"
  show "wf_block (SASSObjectItem b [])" by (simp add: wf_block_def)
next
  fix t blk assume "wf_block blk"
  then show "wf_block (addChildren blk (match_element t) (match_modifier t))"
    by (rule wf_block_addChildren)
       (simp_all add: match_element_not_modifier match_modifier_is_modifier)
qed

lemma extractSCSS_wf:
  assumes "extractSCSS lc cs = Inr f"
  shows "list_all (\<lambda>(k, b). wf_block b) f"
proof -
  from assms obtain S where l: "extractSCSS_loop [] cs = Inr S" and f: "f = sortBlocks lc S"
    by (auto simp: extractSCSS_def split: sum.splits)
  from extractSCSS_loop_wf [OF l] show ?thesis
    unfolding f by (rule sortBlocks_values) (rule wf_block_sorted)
qed

lemma extractSCSS_keys:
  assumes "extractSCSS lc cs = Inr f"
  shows "distinct (map fst f)"
proof -
  from assms obtain S where l: "extractSCSS_loop [] cs = Inr S" and f: "f = sortBlocks lc S"
    by (auto simp: extractSCSS_def split: sum.splits)
  have "map fst (sortBlocks lc S) = map fst S"
    by (induction S) (auto simp: sortBlocks_def)
  with extractSCSS_loop_keys [OF l] f show ?thesis by simp
qed

lemma leaf_no_duplicate_names: "is_modifier_leaf g \<Longrightarrow> no_duplicate_names g"
  by (cases g) (simp add: is_modifier_leaf_def)

lemma wf_child_no_duplicate_names: "wf_child c \<Longrightarrow> no_duplicate_names c"
  by (cases c) (auto simp: wf_child_def list_all_iff leaf_no_duplicate_names)

lemma wf_block_no_duplicate_names: "wf_block blk \<Longrightarrow> no_duplicate_names blk"
  by (cases blk) (auto simp: wf_block_def list_all_iff wf_child_no_duplicate_names)

lemma height_le:
  "(\<And>c. c \<in> set cs \<Longrightarrow> height c \<le> h) \<Longrightarrow> height (SASSObjectItem n cs) \<le> Suc h"
  by (induction cs) auto

lemma leaf_height: "is_modifier_leaf g \<Longrightarrow> height g \<le> 1"
  by (cases g) (simp add: is_modifier_leaf_def)

lemma wf_child_height:
  assumes "wf_child c"
  shows "height c \<le> 2"
proof -
  from assms have "\<forall>g\<in>set (children c). is_modifier_leaf g"
    by (simp add: wf_child_def list_all_iff)
  then have "\<And>g. g \<in> set (children c) \<Longrightarrow> height g \<le> 1"
    using leaf_height by blast
  from height_le [of "children c" 1 "parent c", OF this] show ?thesis
    by simp
qed

lemma wf_block_height:
  assumes "wf_block blk"
  shows "height blk \<le> 3"
proof -
  from assms have "\<forall>c\<in>set (children blk). wf_child c"
    by (simp add: wf_block_def list_all_iff)
  then have "\<And>c. c \<in> set (children blk) \<Longrightarrow> height c \<le> 2"
    using wf_child_height by blast
  from height_le [of "children blk" 2 "parent blk", OF this] show ?thesis
    by simp
qed

lemma wf_block_shape:
  assumes "wf_block root"
  shows "list_all (\<lambda>child.
               (startsWith (parent child) ''--'' \<longrightarrow> children child = [])
               \<and> list_all (\<lambda>grandchild. children grandchild = []
                                          \<and> startsWith (parent grandchild) ''--'')
                   (children child))
             (children root)"
  unfolding list_all_iff
proof (intro ballI conjI impI)
  fix child assume c: "child \<in> set (children root)"
  with assms have wc: "wf_child child"
    unfolding wf_block_def list_all_iff by blast
  {
    assume "startsWith (parent child) ''--''"
    with wc show "children child = []"
      unfolding wf_child_def by blast
  }
  fix grandchild assume "grandchild \<in> set (children child)"
  with wc have "is_modifier_leaf grandchild"
    unfolding wf_child_def list_all_iff by blast
  then show "children grandchild = []" and "startsWith (parent grandchild) ''--''"
    unfolding is_modifier_leaf_def by blast+
qed

text \<open>
  C10. In the forest \<open>extractSCSS\<close> returns, and in the forest the loop holds after any
  number of rounds, every tree has height at most three: a child of a block that is
  named by a modifier has no children, and the children of a child of a block are
  modifiers without children. A modifier is pushed under the child found by the
  element's name, which begins with \<open>__\<close>, so never under a node named by a modifier.
\<close>

theorem extractSCSS_height_at_most_three:
  assumes "extractSCSS localeCompare classNames = Inr forest
           \<or> extractSCSS_loop [] classNames = Inr forest"
    and "(blockKey, root) \<in> set forest"
  shows "height root \<le> 3
         \<and> list_all (\<lambda>child.
               (startsWith (parent child) ''--'' \<longrightarrow> children child = [])
               \<and> list_all (\<lambda>grandchild. children grandchild = []
                                          \<and> startsWith (parent grandchild) ''--'')
                   (children child))
             (children root)"
proof -
  from assms(1) have "list_all (\<lambda>(k, b). wf_block b) forest"
    using extractSCSS_wf extractSCSS_loop_wf by blast
  with assms(2) have wf: "wf_block root"
    unfolding list_all_iff by blast
  from wf_block_height [OF wf] wf_block_shape [OF wf] show ?thesis
    by (rule conjI)
qed

theorem extractSCSS_height_at_most_three_witness:
  "extractSCSS (\<lambda>a b. 0) [''b'', ''b--m'', ''b__e'', ''b__e--m'', ''b__e--n'']
     = Inr [(''b'', SASSObjectItem ''b''
              [SASSObjectItem ''--m'' [],
               SASSObjectItem ''__e'' [SASSObjectItem ''--m'' [], SASSObjectItem ''--n'' []]])]
   \<and> height (SASSObjectItem ''b''
              [SASSObjectItem ''--m'' [],
               SASSObjectItem ''__e'' [SASSObjectItem ''--m'' [], SASSObjectItem ''--n'' []]]) = 3
   \<and> list_all (\<lambda>child.
               (startsWith (parent child) ''--'' \<longrightarrow> children child = [])
               \<and> list_all (\<lambda>grandchild. children grandchild = []
                                          \<and> startsWith (parent grandchild) ''--'')
                   (children child))
        [SASSObjectItem ''--m'' [],
         SASSObjectItem ''__e'' [SASSObjectItem ''--m'' [], SASSObjectItem ''--n'' []]]"
proof -
  let ?r = "SASSObjectItem ''b''
              [SASSObjectItem ''--m'' [],
               SASSObjectItem ''__e'' [SASSObjectItem ''--m'' [], SASSObjectItem ''--n'' []]]"
  have e: "extractSCSS (\<lambda>a b. 0) [''b'', ''b--m'', ''b__e'', ''b__e--m'', ''b__e--n'']
             = Inr [(''b'', ?r)]"
    by (simp add: extract_defs)
  have m: "(''b'', ?r) \<in> set [(''b'', ?r)]" by simp
  have h: "height ?r = 3" by simp
  from extractSCSS_height_at_most_three [OF disjI1, OF e m] e h
  show ?thesis by simp
qed

section \<open>Feeding the class names twice\<close>

lemma find_snoc:
  "find P (xs @ [y]) = (case find P xs of Some x \<Rightarrow> Some x | None \<Rightarrow> if P y then Some y else None)"
  by (induction xs) auto

lemma find_push_under:
  "find (\<lambda>x. parent x = e) (push_under e' c xs)
     = map_option (\<lambda>el. if e = e' then push el c else el) (find (\<lambda>x. parent x = e) xs)"
  by (induction xs) (auto simp: option.map_ident)

lemma names_set_push_under: "parent ` set (push_under n child cs) = parent ` set cs"
  using names_push_under [of n child cs] by (metis set_map)

lemma covers_same: "covers blk e m \<Longrightarrow> addChildren blk e m = blk"
  by (auto simp: covers_def addChildren_def Let_def split: option.splits)

lemma covers_push: "covers blk e m \<Longrightarrow> covers (push blk c) e m"
  by (auto simp: covers_def find_snoc split: option.splits)

lemma covers_push_under:
  "covers blk e m \<Longrightarrow> covers (SASSObjectItem (parent blk) (push_under e' c (children blk))) e m"
  by (auto simp: covers_def find_push_under list_ex_names names_set_push_under
      split: option.splits)

lemma covers_addChildren_self: "covers (addChildren blk e m) e m"
proof (cases e)
  case None
  then show ?thesis
    by (cases m) (auto simp: covers_def addChildren_def)
next
  case (Some e0)
  define blk1 where "blk1 = (if find (\<lambda>child. parent child = e0) (children blk) = None
                      then push blk (SASSObjectItem e0 []) else blk)"
  have "find (\<lambda>child. parent child = e0) (children blk1) \<noteq> None"
    by (auto simp: blk1_def find_None_names)
  then obtain el where f: "find (\<lambda>child. parent child = e0) (children blk1) = Some el"
    by auto
  show ?thesis
  proof (cases m)
    case None
    with Some f show ?thesis
      by (simp add: covers_def addChildren_def blk1_def [symmetric])
  next
    case m: (Some m0)
    show ?thesis
    proof (cases "list_ex (\<lambda>c. parent c = m0) (children el)")
      case True
      with Some m f show ?thesis
        by (simp add: covers_def addChildren_def Let_def blk1_def [symmetric])
    next
      case False
      with Some m f show ?thesis
        by (simp add: covers_def addChildren_def Let_def blk1_def [symmetric] find_push_under)
    qed
  qed
qed

lemma covers_addChildren_other:
  assumes "covers blk e m"
  shows "covers (addChildren blk e' m') e m"
proof (cases e')
  case None
  with assms show ?thesis
    by (cases m') (auto simp: addChildren_def covers_push)
next
  case (Some e0)
  define blk1 where "blk1 = (if find (\<lambda>child. parent child = e0) (children blk) = None
                      then push blk (SASSObjectItem e0 []) else blk)"
  have c1: "covers blk1 e m"
    using assms by (simp add: blk1_def covers_push)
  show ?thesis
  proof (cases m')
    case None
    with Some c1 show ?thesis by (simp add: addChildren_def blk1_def)
  next
    case m: (Some m0)
    from covers_push_under [OF c1] c1 Some m show ?thesis
      by (simp add: addChildren_def Let_def blk1_def [symmetric])
  qed
qed

lemma get_property_set_property:
  "get_property (set_property k v S) k'
     = (if k' = k \<and> k \<in> fst ` set S then Own v else get_property S k')"
  by (simp add: get_property_def map_of_set_property)

lemma get_property_snoc:
  "get_property S k = Undefined \<Longrightarrow>
   get_property (S @ [(k, v)]) k' = (if k' = k then Own v else get_property S k')"
  by (auto simp: get_property_def map_add_def split: option.splits if_splits)

lemma covered_step_same:
  assumes "covered S t"
  shows "extractSCSS_step S t = Inr S"
proof (cases "match_block t")
  case None
  then show ?thesis by (rule extractSCSS_step_no_block)
next
  case (Some b)
  show ?thesis
  proof (cases "get_property S b")
    case Undefined
    with Some assms show ?thesis by (simp add: covered_def)
  next
    case Inherited
    with Some assms show ?thesis
      by (simp add: covered_def extractSCSS_step_def splitClassNameByBEMRule_def)
  next
    case (Own blk)
    with Some assms have "addChildren blk (match_element t) (match_modifier t) = blk"
      by (simp add: covered_def covers_same)
    with Some Own show ?thesis
      by (simp add: extractSCSS_step_def splitClassNameByBEMRule_def
            set_property_same [OF get_property_Own])
  qed
qed

lemma step_covered:
  assumes "extractSCSS_step S t = Inr S'"
  shows "covered S' t"
  using assms
proof (cases rule: extractSCSS_step_cases)
  case skip
  then show ?thesis by (simp add: covered_def)
next
  case (new b)
  then show ?thesis by (simp add: covered_def get_property_snoc covers_def)
next
  case (old b)
  then show ?thesis by (cases "get_property S b") (simp_all add: covered_def covers_def)
next
  case (add b blk)
  from add(2) have "b \<in> fst ` set S"
    by (auto dest!: get_property_Own_mem intro: rev_image_eqI)
  with add show ?thesis
    by (simp add: covered_def get_property_set_property covers_addChildren_self)
qed

lemma covered_step:
  assumes "covered S t" "extractSCSS_step S u = Inr S'"
  shows "covered S' t"
proof (cases "match_block t")
  case None
  then show ?thesis by (simp add: covered_def)
next
  case (Some b)
  with assms(1) have nu: "get_property S b \<noteq> Undefined"
    by (auto simp: covered_def)
  from assms(2) show ?thesis
  proof (cases rule: extractSCSS_step_cases)
    case skip
    with assms(1) show ?thesis by simp
  next
    case (new b')
    with nu have "b \<noteq> b'" by auto
    with new assms(1) Some show ?thesis
      by (simp add: covered_def get_property_snoc)
  next
    case (old b')
    with assms(1) show ?thesis by simp
  next
    case (add b' blk')
    from add(2) have k: "b' \<in> fst ` set S"
      by (auto dest!: get_property_Own_mem intro: rev_image_eqI)
    show ?thesis
    proof (cases "b = b'")
      case True
      with add(2) Some assms(1) have "covers blk' (match_element t) (match_modifier t)"
        by (simp add: covered_def)
      from covers_addChildren_other [OF this] True k add(4) Some show ?thesis
        by (simp add: covered_def get_property_set_property)
    next
      case False
      with add(4) assms(1) Some show ?thesis
        by (simp add: covered_def get_property_set_property)
    qed
  qed
qed

lemma covered_loop:
  "extractSCSS_loop S ts = Inr S' \<Longrightarrow> covered S t \<Longrightarrow> covered S' t"
  by (induction ts arbitrary: S) (auto split: sum.splits dest: covered_step)

lemma loop_covers_all:
  "extractSCSS_loop S ts = Inr S' \<Longrightarrow> t \<in> set ts \<Longrightarrow> covered S' t"
proof (induction ts arbitrary: S)
  case Nil
  then show ?case by simp
next
  case (Cons u ts)
  from Cons.prems(1) obtain S1 where s: "extractSCSS_step S u = Inr S1"
    and l: "extractSCSS_loop S1 ts = Inr S'"
    by (auto split: sum.splits)
  show ?case
  proof (cases "t = u")
    case True
    with step_covered [OF s] covered_loop [OF l] show ?thesis by simp
  next
    case False
    with Cons.prems(2) Cons.IH [OF l] show ?thesis by simp
  qed
qed

lemma loop_all_covered:
  "(\<And>t. t \<in> set ts \<Longrightarrow> covered S t) \<Longrightarrow> extractSCSS_loop S ts = Inr S"
  by (induction ts) (simp_all add: covered_step_same)

lemma extractSCSS_loop_twice:
  "extractSCSS_loop S (ts @ ts) = extractSCSS_loop S ts"
proof (cases "extractSCSS_loop S ts")
  case (Inl e)
  then show ?thesis by (simp add: extractSCSS_loop_append)
next
  case (Inr S')
  have "extractSCSS_loop S' ts = Inr S'"
    by (rule loop_all_covered) (rule loop_covers_all [OF Inr])
  with Inr show ?thesis by (simp add: extractSCSS_loop_append)
qed

text \<open>
  C5. \<open>extractSCSS\<close> on a sequence of class names followed by the same sequence returns
  what it returns on the sequence alone: the same forest, and where the sequence makes
  it throw, the same error.
\<close>

theorem extractSCSS_twice:
  "extractSCSS localeCompare (classNames @ classNames) = extractSCSS localeCompare classNames"
  by (simp add: extractSCSS_def extractSCSS_loop_twice)

theorem extractSCSS_twice_witness:
  "extractSCSS (\<lambda>a b. 0) ([''b'', ''b__e--m'', ''b--x'', ''b__e''] @ [''b'', ''b__e--m'', ''b--x'', ''b__e''])
     = Inr [(''b'', SASSObjectItem ''b''
              [SASSObjectItem ''--x'' [], SASSObjectItem ''__e'' [SASSObjectItem ''--m'' []]])]"
proof -
  have "extractSCSS (\<lambda>a b. 0) [''b'', ''b__e--m'', ''b--x'', ''b__e'']
     = Inr [(''b'', SASSObjectItem ''b''
              [SASSObjectItem ''--x'' [], SASSObjectItem ''__e'' [SASSObjectItem ''--m'' []]])]"
    by (simp add: extract_defs)
  with extractSCSS_twice [of "\<lambda>a b. 0" "[''b'', ''b__e--m'', ''b--x'', ''b__e'']"]
  show ?thesis by (simp only:)
qed

section \<open>The order of the children of a block\<close>

lemma sorted_insert_sorted:
  assumes total: "\<And>a b. cmp a b \<le> 0 \<or> cmp b a \<le> 0"
    and trans: "\<And>a b c. cmp a b \<le> 0 \<Longrightarrow> cmp b c \<le> 0 \<Longrightarrow> cmp a c \<le> 0"
    and "sorted_wrt (\<lambda>a b. cmp a b \<le> 0) ys"
  shows "sorted_wrt (\<lambda>a b. cmp a b \<le> 0) (insert_sorted cmp x ys)"
  using assms(3)
proof (induction ys)
  case Nil
  then show ?case by simp
next
  case (Cons y ys)
  show ?case
  proof (cases "cmp x y \<le> 0")
    case True
    with Cons.prems trans have "\<forall>z\<in>set (y # ys). cmp x z \<le> 0"
      by auto
    with True Cons.prems show ?thesis by simp
  next
    case False
    with total have "cmp y x \<le> 0" by blast
    with False Cons show ?thesis
      by (simp add: set_insert_sorted)
  qed
qed

lemma sorted_foldr_insert_sorted:
  assumes "\<And>a b. cmp a b \<le> 0 \<or> cmp b a \<le> 0"
    and "\<And>a b c. cmp a b \<le> 0 \<Longrightarrow> cmp b c \<le> 0 \<Longrightarrow> cmp a c \<le> 0"
  shows "sorted_wrt (\<lambda>a b. cmp a b \<le> 0) (foldr (insert_sorted cmp) xs [])"
  by (induction xs) (simp_all add: sorted_insert_sorted [OF assms])

lemma compareChildren_le:
  "(compareChildren lc a b \<le> 0)
     = (startsWith (parent a) ''--'' \<and> \<not> startsWith (parent b) ''--''
        \<or> startsWith (parent a) ''--'' = startsWith (parent b) ''--''
          \<and> lc (parent a) (parent b) \<le> 0)"
  by (auto simp: compareChildren_def Let_def)

lemma compareChildren_total:
  assumes "consistent_comparator lc"
  shows "compareChildren lc a b \<le> 0 \<or> compareChildren lc b a \<le> 0"
proof -
  from assms have "lc (parent a) (parent b) \<le> 0 \<or> lc (parent b) (parent a) \<le> 0"
    unfolding consistent_comparator_def by blast
  then show ?thesis unfolding compareChildren_le by blast
qed

lemma compareChildren_trans:
  assumes "consistent_comparator lc"
    and "compareChildren lc a b \<le> 0" "compareChildren lc b c \<le> 0"
  shows "compareChildren lc a c \<le> 0"
proof -
  from assms(1)
  have "lc (parent a) (parent b) \<le> 0 \<Longrightarrow> lc (parent b) (parent c) \<le> 0
        \<Longrightarrow> lc (parent a) (parent c) \<le> 0"
    unfolding consistent_comparator_def by blast
  with assms(2,3) show ?thesis unfolding compareChildren_le by blast
qed

lemma sorted_sortSASSObjectChildren:
  assumes "consistent_comparator lc"
  shows "sorted_wrt (\<lambda>a b. compareChildren lc a b \<le> 0) (sortSASSObjectChildren lc cs)"
  unfolding sortSASSObjectChildren_def
  by (rule sorted_foldr_insert_sorted)
     (rule compareChildren_total [OF assms], rule compareChildren_trans [OF assms])

lemma sortBlocks_mem:
  "(k, r) \<in> set (sortBlocks lc S) \<Longrightarrow>
   \<exists>r0. (k, r0) \<in> set S \<and> parent r = parent r0
        \<and> children r = sortSASSObjectChildren lc (children r0)"
  by (auto simp: sortBlocks_def)

text \<open>
  C4. With a consistent \<open>localeCompare\<close>, the children of every block of a forest that
  \<open>extractSCSS\<close> returns are in order: no element before a modifier, and within the
  modifiers and within the elements in the order of \<open>localeCompare\<close>. The children are
  those the loop left under the block, each with its own children as the loop left
  them: below the block nothing is sorted (\<open>--z\<close> stays before \<open>--a\<close> under \<open>__x\<close>). A
  block with \<open>--large\<close> and \<open>__title\<close> added in that order is written with \<open>&--large\<close>
  before \<open>&__title\<close>.
\<close>

theorem extractSCSS_children_order:
  assumes "consistent_comparator localeCompare"
    and "extractSCSS localeCompare classNames = Inr forest"
    and "(blockKey, root) \<in> set forest"
  shows "sorted_wrt
           (\<lambda>a b. (startsWith (parent b) ''--'' \<longrightarrow> startsWith (parent a) ''--'')
                  \<and> (startsWith (parent a) ''--'' = startsWith (parent b) ''--''
                       \<longrightarrow> localeCompare (parent a) (parent b) \<le> 0))
           (children root)
         \<and> (\<exists>unsorted root0. extractSCSS_loop [] classNames = Inr unsorted
                \<and> (blockKey, root0) \<in> set unsorted
                \<and> set (children root) = set (children root0))
         \<and> extractSCSS localeCompare [''b'', ''b__x'', ''b__x--z'', ''b__x--a'']
             = Inr [(''b'', SASSObjectItem ''b''
                      [SASSObjectItem ''__x'' [SASSObjectItem ''--z'' [], SASSObjectItem ''--a'' []]])]
         \<and> extractSCSS localeCompare [''b'', ''b--large'', ''b__title'']
             = Inr [(''b'', SASSObjectItem ''b''
                      [SASSObjectItem ''--large'' [], SASSObjectItem ''__title'' []])]
         \<and> generateSCSS [(''b'', SASSObjectItem ''b''
                      [SASSObjectItem ''--large'' [], SASSObjectItem ''__title'' []])]
             = ''.b {'' @ [newline] @ ''  '' @ [newline]
               @ [tab] @ ''&--large {'' @ [newline] @ [tab] @ ''  '' @ [newline] @ [tab] @ ''}'' @ [newline]
               @ [tab] @ ''&__title {'' @ [newline] @ [tab] @ ''  '' @ [newline] @ [tab] @ ''}'' @ [newline]
               @ ''}'' @ [newline] @ [newline]"
proof -
  from assms(2) obtain S where l: "extractSCSS_loop [] classNames = Inr S"
    and f: "forest = sortBlocks localeCompare S"
    by (auto simp: extractSCSS_def split: sum.splits)
  from assms(3) f obtain root0 where r0: "(blockKey, root0) \<in> set S"
    and c: "children root = sortSASSObjectChildren localeCompare (children root0)"
    by (auto dest: sortBlocks_mem)
  have "sorted_wrt (\<lambda>a b. compareChildren localeCompare a b \<le> 0) (children root)"
    unfolding c by (rule sorted_sortSASSObjectChildren [OF assms(1)])
  then have s: "sorted_wrt
           (\<lambda>a b. (startsWith (parent b) ''--'' \<longrightarrow> startsWith (parent a) ''--'')
                  \<and> (startsWith (parent a) ''--'' = startsWith (parent b) ''--''
                       \<longrightarrow> localeCompare (parent a) (parent b) \<le> 0))
           (children root)"
    by (rule sorted_wrt_mono_rel [rotated]) (auto simp: compareChildren_le)
  have u: "\<exists>unsorted root0. extractSCSS_loop [] classNames = Inr unsorted
                \<and> (blockKey, root0) \<in> set unsorted
                \<and> set (children root) = set (children root0)"
    using l r0 c by (auto simp: set_sortSASSObjectChildren)
  have e1: "extractSCSS localeCompare [''b'', ''b__x'', ''b__x--z'', ''b__x--a'']
             = Inr [(''b'', SASSObjectItem ''b''
                      [SASSObjectItem ''__x'' [SASSObjectItem ''--z'' [], SASSObjectItem ''--a'' []]])]"
    by (simp add: extract_defs)
  have e2: "extractSCSS localeCompare [''b'', ''b--large'', ''b__title'']
             = Inr [(''b'', SASSObjectItem ''b''
                      [SASSObjectItem ''--large'' [], SASSObjectItem ''__title'' []])]"
    by (simp add: extract_defs)
  have g: "generateSCSS [(''b'', SASSObjectItem ''b''
                      [SASSObjectItem ''--large'' [], SASSObjectItem ''__title'' []])]
             = ''.b {'' @ [newline] @ ''  '' @ [newline]
               @ [tab] @ ''&--large {'' @ [newline] @ [tab] @ ''  '' @ [newline] @ [tab] @ ''}'' @ [newline]
               @ [tab] @ ''&__title {'' @ [newline] @ [tab] @ ''  '' @ [newline] @ [tab] @ ''}'' @ [newline]
               @ ''}'' @ [newline] @ [newline]"
    by (simp add: generateSCSS_def Object_values_def is_array_index_def is_digit_def)
  from s u e1 e2 g show ?thesis by (intro conjI)
qed

lemma consistent_code_unit_compare: "consistent_comparator code_unit_compare"
  by (auto simp: consistent_comparator_def code_unit_compare_def split: if_splits)

theorem extractSCSS_children_order_witness:
  "consistent_comparator code_unit_compare
   \<and> extractSCSS code_unit_compare [''b'', ''b__z'', ''b--m'', ''b__a'', ''b--c'']
       = Inr [(''b'', SASSObjectItem ''b''
                [SASSObjectItem ''--c'' [], SASSObjectItem ''--m'' [],
                 SASSObjectItem ''__a'' [], SASSObjectItem ''__z'' []])]
   \<and> sorted_wrt
           (\<lambda>a b. (startsWith (parent b) ''--'' \<longrightarrow> startsWith (parent a) ''--'')
                  \<and> (startsWith (parent a) ''--'' = startsWith (parent b) ''--''
                       \<longrightarrow> code_unit_compare (parent a) (parent b) \<le> 0))
           [SASSObjectItem ''--c'' [], SASSObjectItem ''--m'' [],
            SASSObjectItem ''__a'' [], SASSObjectItem ''__z'' []]"
proof -
  let ?r = "SASSObjectItem ''b''
                [SASSObjectItem ''--c'' [], SASSObjectItem ''--m'' [],
                 SASSObjectItem ''__a'' [], SASSObjectItem ''__z'' []]"
  have e: "extractSCSS code_unit_compare [''b'', ''b__z'', ''b--m'', ''b__a'', ''b--c'']
             = Inr [(''b'', ?r)]"
    by (simp add: extract_defs code_unit_compare_def less_char_def)
  have m: "(''b'', ?r) \<in> set [(''b'', ?r)]" by simp
  from extractSCSS_children_order [OF consistent_code_unit_compare e m]
  have "sorted_wrt
           (\<lambda>a b. (startsWith (parent b) ''--'' \<longrightarrow> startsWith (parent a) ''--'')
                  \<and> (startsWith (parent a) ''--'' = startsWith (parent b) ''--''
                       \<longrightarrow> code_unit_compare (parent a) (parent b) \<le> 0))
           (children ?r)"
    by (rule conjunct1)
  then have "sorted_wrt
           (\<lambda>a b. (startsWith (parent b) ''--'' \<longrightarrow> startsWith (parent a) ''--'')
                  \<and> (startsWith (parent a) ''--'' = startsWith (parent b) ''--''
                       \<longrightarrow> code_unit_compare (parent a) (parent b) \<le> 0))
           [SASSObjectItem ''--c'' [], SASSObjectItem ''--m'' [],
            SASSObjectItem ''__a'' [], SASSObjectItem ''__z'' []]"
    by (simp only: SASSObjectItem.sel)
  with consistent_code_unit_compare e show ?thesis by (intro conjI)
qed

section \<open>Names under one parent\<close>

lemma sortBlocks_mem_rev:
  "(k, r0) \<in> set S \<Longrightarrow>
   (k, SASSObjectItem (parent r0) (sortSASSObjectChildren lc (children r0))) \<in> set (sortBlocks lc S)"
  by (force simp: sortBlocks_def)

lemma covered_element_modifier:
  assumes "covered S t" "match_block t = Some b" "match_element t = Some e"
    "match_modifier t = Some m"
  shows "\<exists>blk el. (b, blk) \<in> set S \<and> el \<in> set (children blk) \<and> parent el = e
           \<and> m \<in> parent ` set (children el)"
proof -
  from assms obtain blk where g: "get_property S b = Own blk" and c: "covers blk (Some e) (Some m)"
    by (cases "get_property S b") (auto simp: covered_def)
  from c obtain el where "find (\<lambda>c. parent c = e) (children blk) = Some el"
    and "list_ex (\<lambda>c. parent c = m) (children el)"
    by (auto simp: covers_def split: option.splits)
  with g show ?thesis
    by (auto dest: find_Some_name get_property_Own_mem simp: list_ex_names)
qed

text \<open>
  C6. In a forest that \<open>extractSCSS\<close> returns no two blocks share a key and no node has
  two children of one name. A name is looked for among the children of the immediate
  parent only: for every class name with a block, an element and a modifier, the
  element under that block has a child of the modifier's name, so one modifier name
  under two elements is two nodes.
\<close>

theorem extractSCSS_names_distinct:
  assumes "extractSCSS localeCompare classNames = Inr forest"
  shows "distinct (map fst forest)
         \<and> list_all (\<lambda>(blockKey, root). no_duplicate_names root) forest
         \<and> (\<forall>className\<in>set classNames. \<forall>b e m.
               splitClassNameByBEMRule className = (Some b, Some e, Some m) \<longrightarrow>
               (\<exists>root el. (b, root) \<in> set forest \<and> el \<in> set (children root)
                   \<and> parent el = e \<and> m \<in> parent ` set (children el)))"
proof (intro conjI ballI allI impI)
  show "distinct (map fst forest)"
    using assms by (rule extractSCSS_keys)
  show "list_all (\<lambda>(blockKey, root). no_duplicate_names root) forest"
    using extractSCSS_wf [OF assms]
    by (auto simp: list_all_iff dest: wf_block_no_duplicate_names)
next
  fix className b e m
  assume t: "className \<in> set classNames"
    and sp: "splitClassNameByBEMRule className = (Some b, Some e, Some m)"
  from assms obtain S where l: "extractSCSS_loop [] classNames = Inr S"
    and f: "forest = sortBlocks localeCompare S"
    by (auto simp: extractSCSS_def split: sum.splits)
  from sp have "match_block className = Some b" "match_element className = Some e"
    "match_modifier className = Some m"
    by (auto simp: splitClassNameByBEMRule_def split: option.splits)
  from covered_element_modifier [OF loop_covers_all [OF l t] this]
  obtain blk el where "(b, blk) \<in> set S" "el \<in> set (children blk)" "parent el = e"
    "m \<in> parent ` set (children el)"
    by blast
  with sortBlocks_mem_rev [of b blk S localeCompare] f
  show "\<exists>root el. (b, root) \<in> set forest \<and> el \<in> set (children root)
                   \<and> parent el = e \<and> m \<in> parent ` set (children el)"
    by (intro exI [of _ "SASSObjectItem (parent blk) (sortSASSObjectChildren localeCompare (children blk))"]
          exI [of _ el]) (simp add: set_sortSASSObjectChildren)
qed

theorem extractSCSS_names_distinct_witness:
  "extractSCSS (\<lambda>a b. 0) [''b'', ''b__x--m'', ''b__y--m'', ''b__x--m'', ''b__y'']
     = Inr [(''b'', SASSObjectItem ''b''
              [SASSObjectItem ''__x'' [SASSObjectItem ''--m'' []],
               SASSObjectItem ''__y'' [SASSObjectItem ''--m'' []]])]
   \<and> distinct (map fst [(''b'', SASSObjectItem ''b''
              [SASSObjectItem ''__x'' [SASSObjectItem ''--m'' []],
               SASSObjectItem ''__y'' [SASSObjectItem ''--m'' []]])])
   \<and> no_duplicate_names (SASSObjectItem ''b''
              [SASSObjectItem ''__x'' [SASSObjectItem ''--m'' []],
               SASSObjectItem ''__y'' [SASSObjectItem ''--m'' []]])"
proof -
  let ?f = "[(''b'', SASSObjectItem ''b''
              [SASSObjectItem ''__x'' [SASSObjectItem ''--m'' []],
               SASSObjectItem ''__y'' [SASSObjectItem ''--m'' []]])]"
  have e: "extractSCSS (\<lambda>a b. 0) [''b'', ''b__x--m'', ''b__y--m'', ''b__x--m'', ''b__y''] = Inr ?f"
    by (simp add: extract_defs)
  from extractSCSS_names_distinct [OF e]
  have "distinct (map fst ?f)" and "list_all (\<lambda>(blockKey, root). no_duplicate_names root) ?f"
    by blast+
  with e show ?thesis by simp
qed

section \<open>The round trip of the specification\<close>

text \<open>
  The class names \<open>app\<close>, \<open>app__header\<close>, \<open>app__header--mobile\<close>, \<open>app__heading--h1\<close> build
  one root \<open>app\<close> with the children \<open>__header\<close> (holding \<open>--mobile\<close>) and \<open>__heading\<close>
  (holding \<open>--h1\<close>), in the order \<open>localeCompare\<close> gives the two elements; with \<open>__header\<close>
  first the forest is written as a \<open>.app\<close> block holding \<open>&__header { &--mobile { } }\<close>
  and \<open>&__heading { &--h1 { } }\<close>, every block closed.
\<close>

theorem round_trip_scenario:
  "extractSCSS localeCompare [''app'', ''app__header'', ''app__header--mobile'', ''app__heading--h1'']
     = (if localeCompare ''__header'' ''__heading'' \<le> 0
        then Inr [(''app'', SASSObjectItem ''app''
              [SASSObjectItem ''__header'' [SASSObjectItem ''--mobile'' []],
               SASSObjectItem ''__heading'' [SASSObjectItem ''--h1'' []]])]
        else Inr [(''app'', SASSObjectItem ''app''
              [SASSObjectItem ''__heading'' [SASSObjectItem ''--h1'' []],
               SASSObjectItem ''__header'' [SASSObjectItem ''--mobile'' []]])])
   \<and> generateSCSS [(''app'', SASSObjectItem ''app''
              [SASSObjectItem ''__header'' [SASSObjectItem ''--mobile'' []],
               SASSObjectItem ''__heading'' [SASSObjectItem ''--h1'' []]])]
       = ''.app {'' @ [newline] @ ''  '' @ [newline]
         @ [tab] @ ''&__header {'' @ [newline] @ [tab] @ ''  '' @ [newline]
         @ [tab, tab] @ ''&--mobile {'' @ [newline] @ [tab, tab] @ ''  '' @ [newline]
         @ [tab, tab] @ ''}'' @ [newline]
         @ [tab] @ ''}'' @ [newline]
         @ [tab] @ ''&__heading {'' @ [newline] @ [tab] @ ''  '' @ [newline]
         @ [tab, tab] @ ''&--h1 {'' @ [newline] @ [tab, tab] @ ''  '' @ [newline]
         @ [tab, tab] @ ''}'' @ [newline]
         @ [tab] @ ''}'' @ [newline]
         @ ''}'' @ [newline] @ [newline]"
  by (simp add: extract_defs generateSCSS_def Object_values_def is_array_index_def is_digit_def
        numeral_2_eq_2)

section \<open>When the builder returns\<close>

lemma get_property_Own_iff: "(\<exists>blk. get_property S k = Own blk) = (k \<in> fst ` set S)"
proof -
  have "(\<exists>blk. get_property S k = Own blk) = (map_of S k \<noteq> None)"
    by (auto simp: get_property_def split: option.splits)
  then show ?thesis by (simp add: map_of_eq_None_iff)
qed

lemma get_property_Undefined_iff:
  "(get_property S k = Undefined) = (k \<notin> fst ` set S \<and> k \<notin> set object_prototype_keys)"
  by (simp add: get_property_def map_of_eq_None_iff [symmetric] split: option.splits)

lemma extractSCSS_step_returns:
  assumes "fst ` set S = set seen"
  shows "(\<exists>S'. extractSCSS_step S t = Inr S') =
           (case match_block t of
              None \<Rightarrow> True
            | Some b \<Rightarrow> match_element t = None \<and> match_modifier t = None \<or> b \<in> set seen)"
proof (cases "match_block t")
  case None
  then show ?thesis by (simp add: extractSCSS_step_no_block)
next
  case (Some b)
  show ?thesis
  proof (cases "match_element t = None \<and> match_modifier t = None")
    case True
    with Some show ?thesis
      by (simp add: extractSCSS_step_def splitClassNameByBEMRule_def)
  next
    case False
    with Some have "(\<exists>S'. extractSCSS_step S t = Inr S') = (\<exists>blk. get_property S b = Own blk)"
      by (cases "get_property S b")
         (auto simp: extractSCSS_step_def splitClassNameByBEMRule_def)
    then have "(\<exists>S'. extractSCSS_step S t = Inr S') = (b \<in> set seen)"
      using assms by (simp add: get_property_Own_iff)
    with False show ?thesis
      unfolding Some by (simp only: option.case) blast
  qed
qed

lemma extractSCSS_step_seen:
  assumes "fst ` set S = set seen" "extractSCSS_step S t = Inr S'"
  shows "fst ` set S' =
           set (case match_block t of
                  None \<Rightarrow> seen
                | Some b \<Rightarrow>
                    if match_element t = None \<and> match_modifier t = None
                       \<and> b \<notin> set object_prototype_keys
                    then b # seen else seen)"
  using assms(2)
proof (cases rule: extractSCSS_step_cases)
  case skip
  with assms(1) show ?thesis by simp
next
  case (new b)
  with assms(1) show ?thesis
    by (auto simp: get_property_Undefined_iff)
next
  case (old b)
  from old(4) have "b \<in> fst ` set S \<or> b \<in> set object_prototype_keys"
    by (simp add: get_property_Undefined_iff)
  with old assms(1) show ?thesis by auto
next
  case (add b blk)
  from add(2) have "b \<in> fst ` set S"
    using get_property_Own_iff by blast
  moreover have "fst ` set S' = fst ` set S"
    using keys_set_property [of b _ S] add(4) by (metis set_map)
  ultimately show ?thesis using add assms(1) by auto
qed

lemma extractSCSS_loop_returns:
  "fst ` set S = set seen \<Longrightarrow>
   (\<exists>S'. extractSCSS_loop S ts = Inr S') = blocks_registered_first seen ts"
proof (induction ts arbitrary: S seen)
  case Nil
  then show ?case by simp
next
  case (Cons t ts)
  show ?case
  proof (cases "extractSCSS_step S t")
    case (Inl e)
    then have "\<not> (\<exists>S'. extractSCSS_step S t = Inr S')" by simp
    with extractSCSS_step_returns [OF Cons.prems, of t] Inl show ?thesis
      by (auto split: option.splits)
  next
    case (Inr S1)
    then have r: "\<exists>S'. extractSCSS_step S t = Inr S'" by simp
    note seen1 = extractSCSS_step_seen [OF Cons.prems Inr]
    show ?thesis
    proof (cases "match_block t")
      case None
      with Inr seen1 Cons.IH [of S1 seen] show ?thesis by simp
    next
      case (Some b)
      show ?thesis
      proof (cases "match_element t = None \<and> match_modifier t = None")
        case True
        with Some seen1
        have "fst ` set S1 = set (if b \<in> set object_prototype_keys then seen else b # seen)"
          by simp
        from Cons.IH [OF this] Inr Some True show ?thesis by simp
      next
        case False
        with Some seen1 have s: "fst ` set S1 = set seen" by auto
        from r extractSCSS_step_returns [OF Cons.prems, of t] Some False
        have "b \<in> set seen" by auto
        with Cons.IH [OF s] Inr Some False show ?thesis by auto
      qed
    qed
  qed
qed

text \<open>
  \<open>extractSCSS\<close> returns a forest exactly when every class name with an element or a
  modifier comes after a class name that is its block alone; otherwise it throws.
\<close>

theorem extractSCSS_returns_iff:
  "(\<exists>forest. extractSCSS localeCompare classNames = Inr forest)
     = blocks_registered_first [] classNames"
proof -
  have "(\<exists>forest. extractSCSS localeCompare classNames = Inr forest)
          = (\<exists>S'. extractSCSS_loop [] classNames = Inr S')"
    by (auto simp: extractSCSS_def split: sum.splits)
  also have "\<dots> = blocks_registered_first [] classNames"
    by (rule extractSCSS_loop_returns) simp
  finally show ?thesis .
qed

theorem extractSCSS_returns_iff_witness:
  "blocks_registered_first [] [''b'', ''b__e--m'', ''_'', ''toString'']
   \<and> \<not> blocks_registered_first [] [''b'', ''c__e'']
   \<and> \<not> blocks_registered_first [] [''toString'', ''toString__e'']
   \<and> extractSCSS (\<lambda>a b. 0) [''b'', ''c__e''] = Inl TypeError"
proof -
  have a: "blocks_registered_first [] [''b'', ''b__e--m'', ''_'', ''toString'']"
    and b: "\<not> blocks_registered_first [] [''b'', ''c__e'']"
    and c: "\<not> blocks_registered_first [] [''toString'', ''toString__e'']"
    by (simp_all add: split_defs object_prototype_keys_def)
  from extractSCSS_returns_iff [of "\<lambda>a b. 0" "[''b'', ''c__e'']"] b
  have "\<not> (\<exists>forest. extractSCSS (\<lambda>a b. 0) [''b'', ''c__e''] = Inr forest)"
    by blast
  then obtain e where "extractSCSS (\<lambda>a b. 0) [''b'', ''c__e''] = Inl e"
    by (cases "extractSCSS (\<lambda>a b. 0) [''b'', ''c__e'']") auto
  then have "extractSCSS (\<lambda>a b. 0) [''b'', ''c__e''] = Inl TypeError"
    by (cases e) simp
  with a b c show ?thesis by simp
qed

end
